theory Spec2Isabelle
  imports Main "HOL-Library.Sublist"
begin

section \<open>Memory: pointer slots, heap objects, the allocator\<close>

text \<open>
  The toolkit of \<^verbatim>\<open>RangeOfPointers.hpp\<close> works on sequences of raw owning pointers
  \<^verbatim>\<open>T*\<close>. An address is a natural number and a pointer is an optional address,
  \<open>None\<close> being \<^verbatim>\<open>nullptr\<close>. The memory has four parts:
  \<^item> \<open>slots\<close>: the pointer slots the iterators walk over. An iterator is an index into
    this array, so a source range and a destination range may lie in the same
    container and overlap, as they may in C++;
  \<^item> \<open>heap\<close>: the live objects, by address (\<open>None\<close>: no object lives there);
  \<^item> \<open>freed\<close>: the addresses handed to \<^verbatim>\<open>delete\<close>, in the order of the calls;
  \<^item> \<open>avail\<close>: the addresses the allocator will hand out, in order. A new-expression
    takes the first one at which no object lives; when there is none left the
    new-expression throws (\<^verbatim>\<open>std::bad_alloc\<close>, or the exception of the pointee's
    constructor: either way no object is created).
  The pointee type is the type variable \<open>'v\<close>: copy assignment, copy construction and
  \<^verbatim>\<open>Clone()\<close> produce an equal value, and \<^verbatim>\<open>operator==\<close> is equality.
\<close>

type_synonym addr = nat
type_synonym ptr = "addr option"

datatype error =
    AssertFailed    \<comment> \<open>an \<^verbatim>\<open>assert\<close> of the source failed (debug build: abort)\<close>
  | NullDeref       \<comment> \<open>\<^verbatim>\<open>*p\<close> with \<^verbatim>\<open>p == nullptr\<close>, not caught by an assertion\<close>
  | UseAfterFree    \<comment> \<open>\<^verbatim>\<open>*p\<close> where no object lives at \<^verbatim>\<open>p\<close>\<close>
  | BadIterator     \<comment> \<open>an iterator dereferenced or moved outside the slot array\<close>
  | DoubleFree      \<comment> \<open>\<^verbatim>\<open>delete p\<close> where no object lives at \<^verbatim>\<open>p\<close>\<close>
  | Thrown          \<comment> \<open>a C++ exception propagates\<close>

record 'v mem =
  slots :: "ptr list"
  heap :: "addr \<Rightarrow> 'v option"
  freed :: "addr list"
  avail :: "addr list"

text \<open>Every operation returns its value with the new memory, or an error with the
  memory at the point of failure.\<close>

type_synonym ('a, 'v) res = "error \<times> 'v mem + 'a \<times> 'v mem"

definition ret :: "'a \<Rightarrow> 'v mem \<Rightarrow> ('a, 'v) res" where
  "ret x s = Inr (x, s)"

definition bnd :: "('v mem \<Rightarrow> ('a, 'v) res) \<Rightarrow> ('a \<Rightarrow> 'v mem \<Rightarrow> ('b, 'v) res) \<Rightarrow> 'v mem \<Rightarrow> ('b, 'v) res" where
  "bnd m f s = (case m s of Inl x \<Rightarrow> Inl x | Inr (a, s') \<Rightarrow> f a s')"

definition outcome :: "('a, 'v) res \<Rightarrow> error + 'a" where
  "outcome r = (case r of Inl (e, s) \<Rightarrow> Inl e | Inr (a, s) \<Rightarrow> Inr a)"

text \<open>\<^verbatim>\<open>*it\<close> read and \<^verbatim>\<open>*it = p\<close> for an iterator \<open>it\<close>.\<close>

definition read_slot :: "nat \<Rightarrow> 'v mem \<Rightarrow> (ptr, 'v) res" where
  "read_slot it s = (if it < length (slots s) then Inr (slots s ! it, s) else Inl (BadIterator, s))"

definition write_slot :: "nat \<Rightarrow> ptr \<Rightarrow> 'v mem \<Rightarrow> (unit, 'v) res" where
  "write_slot it p s =
     (if it < length (slots s) then Inr ((), s\<lparr>slots := (slots s)[it := p]\<rparr>)
      else Inl (BadIterator, s))"

text \<open>\<^verbatim>\<open>assert(b)\<close>, with assertions enabled.\<close>

definition assert_that :: "bool \<Rightarrow> 'v mem \<Rightarrow> (unit, 'v) res" where
  "assert_that b s = (if b then Inr ((), s) else Inl (AssertFailed, s))"

text \<open>\<^verbatim>\<open>*p\<close> read, and \<^verbatim>\<open>*p = x\<close> (copy assignment of the pointee).\<close>

definition deref :: "ptr \<Rightarrow> 'v mem \<Rightarrow> ('v, 'v) res" where
  "deref p s =
     (case p of
        None \<Rightarrow> Inl (NullDeref, s)
      | Some a \<Rightarrow> (case heap s a of None \<Rightarrow> Inl (UseAfterFree, s) | Some x \<Rightarrow> Inr (x, s)))"

definition assign :: "ptr \<Rightarrow> 'v \<Rightarrow> 'v mem \<Rightarrow> (unit, 'v) res" where
  "assign p x s =
     (case p of
        None \<Rightarrow> Inl (NullDeref, s)
      | Some a \<Rightarrow> (case heap s a of
                     None \<Rightarrow> Inl (UseAfterFree, s)
                   | Some y \<Rightarrow> Inr ((), s\<lparr>heap := (heap s)(a \<mapsto> x)\<rparr>)))"

text \<open>A parameter \<^verbatim>\<open>const T& value\<close> is a reference: it is bound to an object outside
  the heap (a local or a temporary of the caller, which no \<^verbatim>\<open>delete\<close> of an algorithm
  reaches), or to the heap object at an address. Every use of the parameter reads the
  object it is bound to, as that object is then; reading a heap object that has been
  deleted in between is a use after free.\<close>

datatype 'v cref = Outside 'v | Inside addr

definition read_ref :: "'v cref \<Rightarrow> 'v mem \<Rightarrow> ('v, 'v) res" where
  "read_ref r s = (case r of Outside x \<Rightarrow> Inr (x, s) | Inside a \<Rightarrow> deref (Some a) s)"

text \<open>\<^verbatim>\<open>p->~ValueType()\<close> ends the object's life and keeps its storage;
  \<^verbatim>\<open>::new (p) ValueType(x)\<close> starts a new object there.\<close>

definition destroy :: "ptr \<Rightarrow> 'v mem \<Rightarrow> (unit, 'v) res" where
  "destroy p s =
     (case p of
        None \<Rightarrow> Inl (NullDeref, s)
      | Some a \<Rightarrow> (case heap s a of
                     None \<Rightarrow> Inl (UseAfterFree, s)
                   | Some y \<Rightarrow> Inr ((), s\<lparr>heap := (heap s)(a := None)\<rparr>)))"

definition construct_at :: "ptr \<Rightarrow> 'v \<Rightarrow> 'v mem \<Rightarrow> (unit, 'v) res" where
  "construct_at p x s =
     (case p of
        None \<Rightarrow> Inl (NullDeref, s)
      | Some a \<Rightarrow> Inr ((), s\<lparr>heap := (heap s)(a \<mapsto> x)\<rparr>))"

text \<open>\<^verbatim>\<open>delete p\<close>: nothing for \<^verbatim>\<open>nullptr\<close>; otherwise the object at \<open>p\<close> dies and the
  address is logged.\<close>

definition delete_ptr :: "ptr \<Rightarrow> 'v mem \<Rightarrow> (unit, 'v) res" where
  "delete_ptr p s =
     (case p of
        None \<Rightarrow> Inr ((), s)
      | Some a \<Rightarrow> (case heap s a of
                     None \<Rightarrow> Inl (DoubleFree, s)
                   | Some y \<Rightarrow> Inr ((), s\<lparr>heap := (heap s)(a := None), freed := freed s @ [a]\<rparr>)))"

text \<open>\<^verbatim>\<open>new ValueType(x)\<close>, and \<^verbatim>\<open>Clone()\<close> called on a pointee \<open>x\<close>.\<close>

definition new_copy :: "'v \<Rightarrow> 'v mem \<Rightarrow> (ptr, 'v) res" where
  "new_copy x s =
     (case dropWhile (\<lambda>a. heap s a \<noteq> None) (avail s) of
        [] \<Rightarrow> Inl (Thrown, s)
      | a # rest \<Rightarrow> Inr (Some a, s\<lparr>heap := (heap s)(a \<mapsto> x), avail := rest\<rparr>))"

section \<open>The scoped guards\<close>

text \<open>\<^verbatim>\<open>raii_ptrs_range_wrapper\<close>: the two iterators it holds, the members
  \<^verbatim>\<open>first_\<close> and \<^verbatim>\<open>last_\<close> (a name cannot end with an underscore here).\<close>

record raii_ptrs_range_wrapper =
  first_m :: nat
  last_m :: nat

definition range_wrapper :: "nat \<Rightarrow> nat \<Rightarrow> raii_ptrs_range_wrapper" where
  "range_wrapper first last' = \<lparr>first_m = first, last_m = last'\<rparr>"

definition update_range :: "nat \<Rightarrow> nat \<Rightarrow> raii_ptrs_range_wrapper \<Rightarrow> raii_ptrs_range_wrapper" where
  "update_range first last' w = w\<lparr>first_m := first, last_m := last'\<rparr>"

text \<open>\<^verbatim>\<open>Iter release() { first_ = last_; return last_; }\<close>\<close>

definition release :: "raii_ptrs_range_wrapper \<Rightarrow> nat \<times> raii_ptrs_range_wrapper" where
  "release w = (last_m w, w\<lparr>first_m := last_m w\<rparr>)"

text \<open>The destructor:
  \<^verbatim>\<open>for (; first_ != last_; ++first_) { delete(*first_); }\<close>\<close>

definition range_wrapper_dtor_body :: "raii_ptrs_range_wrapper \<Rightarrow> 'v mem \<Rightarrow> (raii_ptrs_range_wrapper, 'v) res" where
  "range_wrapper_dtor_body w =
     bnd (read_slot (first_m w)) (\<lambda>p.
     bnd (delete_ptr p) (\<lambda>u.
     ret (w\<lparr>first_m := Suc (first_m w)\<rparr>)))"

function range_wrapper_dtor :: "raii_ptrs_range_wrapper \<Rightarrow> 'v mem \<Rightarrow> (raii_ptrs_range_wrapper, 'v) res" where
  "range_wrapper_dtor w s =
     (if first_m w = last_m w then Inr (w, s)
      else case range_wrapper_dtor_body w s of
             Inl x \<Rightarrow> Inl x
           | Inr (w', s') \<Rightarrow> range_wrapper_dtor w' s')"
  by pat_completeness auto
termination
  by (relation "measure (\<lambda>(w, s). length (slots s) - first_m w)")
     (auto simp: range_wrapper_dtor_body_def bnd_def ret_def read_slot_def delete_ptr_def
           split: if_splits option.splits sum.splits prod.splits)

text \<open>\<^verbatim>\<open>raii_ptrs_container_wrapper\<close>: \<^verbatim>\<open>pCont_\<close> points to a container or is null. The
  container is named by a value of \<open>'c\<close>; the destructor looks its current contents up.\<close>

record 'c raii_ptrs_container_wrapper =
  pCont :: "'c option"

definition container_wrapper :: "'c \<Rightarrow> 'c raii_ptrs_container_wrapper" where
  "container_wrapper c = \<lparr>pCont = Some c\<rparr>"

definition change_container :: "'c \<Rightarrow> 'c raii_ptrs_container_wrapper \<Rightarrow> 'c raii_ptrs_container_wrapper" where
  "change_container c w = w\<lparr>pCont := Some c\<rparr>"

definition release_container :: "'c raii_ptrs_container_wrapper \<Rightarrow> 'c raii_ptrs_container_wrapper" where
  "release_container w = w\<lparr>pCont := None\<rparr>"

text \<open>\<^verbatim>\<open>for (auto p : (*pCont_)) delete p;\<close>\<close>

fun delete_all :: "ptr list \<Rightarrow> 'v mem \<Rightarrow> (unit, 'v) res" where
  "delete_all [] s = Inr ((), s)"
| "delete_all (p # ps) s =
     (case delete_ptr p s of Inl x \<Rightarrow> Inl x | Inr (u, s') \<Rightarrow> delete_all ps s')"

definition container_wrapper_dtor :: "('c \<Rightarrow> ptr list) \<Rightarrow> 'c raii_ptrs_container_wrapper \<Rightarrow> 'v mem \<Rightarrow> (unit, 'v) res" where
  "container_wrapper_dtor contents w s =
     (case pCont w of None \<Rightarrow> Inr ((), s) | Some c \<Rightarrow> delete_all (contents c) s)"

section \<open>The copy family\<close>

text \<open>Each loop of the source is a recursive function; its body is a definition of
  its own. The iterators \<^verbatim>\<open>first\<close>, \<^verbatim>\<open>last\<close>, \<^verbatim>\<open>dest\<close> and \<^verbatim>\<open>result\<close> are slot
  indices (\<open>last'\<close> for \<^verbatim>\<open>last\<close>). A loop \<^verbatim>\<open>for (; first != last; ++first)\<close> whose
  \<^verbatim>\<open>first\<close> never meets \<^verbatim>\<open>last\<close> walks off the slot array and fails there.\<close>

text \<open>\<^verbatim>\<open>Copy\<close>:
  \<^verbatim>\<open>assert(*dest != nullptr); assert(*first != nullptr); *(*dest) = *(*first);\<close>\<close>

definition Copy_body :: "nat \<Rightarrow> nat \<Rightarrow> 'v mem \<Rightarrow> (unit, 'v) res" where
  "Copy_body first dest =
     bnd (read_slot dest) (\<lambda>d.
     bnd (assert_that (d \<noteq> None)) (\<lambda>u.
     bnd (read_slot first) (\<lambda>f.
     bnd (assert_that (f \<noteq> None)) (\<lambda>u.
     bnd (deref f) (\<lambda>x.
     assign d x)))))"

function Copy :: "nat \<Rightarrow> nat \<Rightarrow> nat \<Rightarrow> 'v mem \<Rightarrow> (nat, 'v) res" where
  "Copy first last' dest s =
     (if first = last' then Inr (dest, s)
      else case Copy_body first dest s of
             Inl x \<Rightarrow> Inl x
           | Inr (u, s') \<Rightarrow> Copy (Suc first) last' (Suc dest) s')"
  by pat_completeness auto
termination
  by (relation "measure (\<lambda>(first, last', dest, s). length (slots s) - first)")
     (auto simp: Copy_body_def bnd_def read_slot_def assert_that_def deref_def assign_def
           split: if_splits option.splits sum.splits prod.splits)

text \<open>\<^verbatim>\<open>CopyN\<close>: no assertion. \<^verbatim>\<open>count\<close> is an integer of any signedness.
  \<^verbatim>\<open>*(*dest) = *(*first); ++dest; --count; if (count == 0) break; ++first;\<close>\<close>

definition CopyN_body :: "nat \<Rightarrow> nat \<Rightarrow> 'v mem \<Rightarrow> (unit, 'v) res" where
  "CopyN_body first dest =
     bnd (read_slot first) (\<lambda>f.
     bnd (deref f) (\<lambda>x.
     bnd (read_slot dest) (\<lambda>d.
     assign d x)))"

function CopyN_loop :: "nat \<Rightarrow> int \<Rightarrow> nat \<Rightarrow> 'v mem \<Rightarrow> (nat, 'v) res" where
  "CopyN_loop first count dest s =
     (case CopyN_body first dest s of
        Inl x \<Rightarrow> Inl x
      | Inr (u, s') \<Rightarrow>
          if count - 1 = 0 then Inr (Suc dest, s')
          else CopyN_loop (Suc first) (count - 1) (Suc dest) s')"
  by pat_completeness auto
termination
  by (relation "measure (\<lambda>(first, count, dest, s). length (slots s) - first)")
     (auto simp: CopyN_body_def bnd_def read_slot_def deref_def assign_def
           split: if_splits option.splits sum.splits prod.splits)

definition CopyN :: "nat \<Rightarrow> int \<Rightarrow> nat \<Rightarrow> 'v mem \<Rightarrow> (nat, 'v) res" where
  "CopyN first count dest s = (if count > 0 then CopyN_loop first count dest s else Inr (dest, s))"

text \<open>\<^verbatim>\<open>CopyBackward\<close>: no assertion.
  \<^verbatim>\<open>while (first != last) { *(*(--dest)) = *(*(--last)); }\<close>
  Decrementing an iterator that stands at the start of the slot array fails.\<close>

definition CopyBackward_body :: "nat \<Rightarrow> nat \<Rightarrow> 'v mem \<Rightarrow> (unit, 'v) res" where
  "CopyBackward_body last' dest =
     bnd (\<lambda>s. if last' = 0 then Inl (BadIterator, s) else read_slot (last' - 1) s) (\<lambda>f.
     bnd (deref f) (\<lambda>x.
     bnd (\<lambda>s. if dest = 0 then Inl (BadIterator, s) else read_slot (dest - 1) s) (\<lambda>d.
     assign d x)))"

function CopyBackward :: "nat \<Rightarrow> nat \<Rightarrow> nat \<Rightarrow> 'v mem \<Rightarrow> (nat, 'v) res" where
  "CopyBackward first last' dest s =
     (if first = last' then Inr (dest, s)
      else case CopyBackward_body last' dest s of
             Inl x \<Rightarrow> Inl x
           | Inr (u, s') \<Rightarrow> CopyBackward first (last' - 1) (dest - 1) s')"
  by pat_completeness auto
termination
  by (relation "measure (\<lambda>(first, last', dest, s). last')")
     (auto simp: CopyBackward_body_def bnd_def split: if_splits sum.splits prod.splits)

text \<open>\<^verbatim>\<open>CopyIf\<close>: the body returns the new \<^verbatim>\<open>dest\<close>.
  \<^verbatim>\<open>assert(*dest != nullptr); assert(*first != nullptr);
  if (pred(*(*first))) { *(*dest) = *(*first); ++dest; }\<close>\<close>

definition CopyIf_body :: "nat \<Rightarrow> nat \<Rightarrow> ('v \<Rightarrow> bool) \<Rightarrow> 'v mem \<Rightarrow> (nat, 'v) res" where
  "CopyIf_body first dest pred =
     bnd (read_slot dest) (\<lambda>d.
     bnd (assert_that (d \<noteq> None)) (\<lambda>u.
     bnd (read_slot first) (\<lambda>f.
     bnd (assert_that (f \<noteq> None)) (\<lambda>u.
     bnd (deref f) (\<lambda>x.
     if pred x then bnd (assign d x) (\<lambda>u. ret (Suc dest)) else ret dest)))))"

function CopyIf :: "nat \<Rightarrow> nat \<Rightarrow> nat \<Rightarrow> ('v \<Rightarrow> bool) \<Rightarrow> 'v mem \<Rightarrow> (nat, 'v) res" where
  "CopyIf first last' dest pred s =
     (if first = last' then Inr (dest, s)
      else case CopyIf_body first dest pred s of
             Inl x \<Rightarrow> Inl x
           | Inr (dest', s') \<Rightarrow> CopyIf (Suc first) last' dest' pred s')"
  by pat_completeness auto
termination
  by (relation "measure (\<lambda>(first, last', dest, pred, s). length (slots s) - first)")
     (auto simp: CopyIf_body_def bnd_def ret_def read_slot_def assert_that_def deref_def assign_def
           split: if_splits option.splits sum.splits prod.splits)

section \<open>The replace family\<close>

text \<open>\<^verbatim>\<open>ReplaceCopy\<close>:
  \<^verbatim>\<open>assert(*dest != nullptr); assert(*first != nullptr);
  (*dest)->~ValueType(); ::new (*dest) ValueType(*(*first));\<close>\<close>

definition ReplaceCopy_body :: "nat \<Rightarrow> nat \<Rightarrow> 'v mem \<Rightarrow> (unit, 'v) res" where
  "ReplaceCopy_body first dest =
     bnd (read_slot dest) (\<lambda>d.
     bnd (assert_that (d \<noteq> None)) (\<lambda>u.
     bnd (read_slot first) (\<lambda>f.
     bnd (assert_that (f \<noteq> None)) (\<lambda>u.
     bnd (destroy d) (\<lambda>u.
     bnd (deref f) (\<lambda>x.
     construct_at d x))))))"

function ReplaceCopy :: "nat \<Rightarrow> nat \<Rightarrow> nat \<Rightarrow> 'v mem \<Rightarrow> (nat, 'v) res" where
  "ReplaceCopy first last' dest s =
     (if first = last' then Inr (dest, s)
      else case ReplaceCopy_body first dest s of
             Inl x \<Rightarrow> Inl x
           | Inr (u, s') \<Rightarrow> ReplaceCopy (Suc first) last' (Suc dest) s')"
  by pat_completeness auto
termination
  by (relation "measure (\<lambda>(first, last', dest, s). length (slots s) - first)")
     (auto simp: ReplaceCopy_body_def bnd_def read_slot_def assert_that_def deref_def
                 destroy_def construct_at_def
           split: if_splits option.splits sum.splits prod.splits)

text \<open>\<^verbatim>\<open>ReplaceCopyIf\<close>: the loop header is
  \<^verbatim>\<open>for (; first != last; ++dest, ++first)\<close>, so \<^verbatim>\<open>dest\<close> moves on every element.
  \<^verbatim>\<open>assert(*dest != nullptr); assert(*first != nullptr);
  if (pred(*(*first))) { (*dest)->~ValueType(); ::new (*dest) ValueType(*(*first)); }\<close>\<close>

definition ReplaceCopyIf_body :: "nat \<Rightarrow> nat \<Rightarrow> ('v \<Rightarrow> bool) \<Rightarrow> 'v mem \<Rightarrow> (unit, 'v) res" where
  "ReplaceCopyIf_body first dest pred =
     bnd (read_slot dest) (\<lambda>d.
     bnd (assert_that (d \<noteq> None)) (\<lambda>u.
     bnd (read_slot first) (\<lambda>f.
     bnd (assert_that (f \<noteq> None)) (\<lambda>u.
     bnd (deref f) (\<lambda>x.
     if pred x
     then bnd (destroy d) (\<lambda>u. bnd (deref f) (\<lambda>y. construct_at d y))
     else ret ())))))"

function ReplaceCopyIf :: "nat \<Rightarrow> nat \<Rightarrow> nat \<Rightarrow> ('v \<Rightarrow> bool) \<Rightarrow> 'v mem \<Rightarrow> (nat, 'v) res" where
  "ReplaceCopyIf first last' dest pred s =
     (if first = last' then Inr (dest, s)
      else case ReplaceCopyIf_body first dest pred s of
             Inl x \<Rightarrow> Inl x
           | Inr (u, s') \<Rightarrow> ReplaceCopyIf (Suc first) last' (Suc dest) pred s')"
  by pat_completeness auto
termination
  by (relation "measure (\<lambda>(first, last', dest, pred, s). length (slots s) - first)")
     (auto simp: ReplaceCopyIf_body_def bnd_def ret_def read_slot_def assert_that_def deref_def
                 destroy_def construct_at_def
           split: if_splits option.splits sum.splits prod.splits)

section \<open>The clone family\<close>

text \<open>\<^verbatim>\<open>Clone\<close>:
  \<^verbatim>\<open>assert(*dest != nullptr); assert(*first != nullptr); *dest = (*first)->Clone();\<close>\<close>

definition Clone_body :: "nat \<Rightarrow> nat \<Rightarrow> 'v mem \<Rightarrow> (unit, 'v) res" where
  "Clone_body first dest =
     bnd (read_slot dest) (\<lambda>d.
     bnd (assert_that (d \<noteq> None)) (\<lambda>u.
     bnd (read_slot first) (\<lambda>f.
     bnd (assert_that (f \<noteq> None)) (\<lambda>u.
     bnd (deref f) (\<lambda>x.
     bnd (new_copy x) (\<lambda>q.
     write_slot dest q))))))"

function Clone :: "nat \<Rightarrow> nat \<Rightarrow> nat \<Rightarrow> 'v mem \<Rightarrow> (nat, 'v) res" where
  "Clone first last' dest s =
     (if first = last' then Inr (dest, s)
      else case Clone_body first dest s of
             Inl x \<Rightarrow> Inl x
           | Inr (u, s') \<Rightarrow> Clone (Suc first) last' (Suc dest) s')"
  by pat_completeness auto
termination
  by (relation "measure (\<lambda>(first, last', dest, s). length (slots s) - first)")
     (auto simp: Clone_body_def bnd_def read_slot_def write_slot_def assert_that_def deref_def
                 new_copy_def
           split: if_splits option.splits sum.splits prod.splits list.splits)

text \<open>\<^verbatim>\<open>CloneIf\<close>:
  \<^verbatim>\<open>assert(*dest != nullptr); assert(*first != nullptr);
  if (pred(*(*first))) { *dest = (*first)->Clone(); ++dest; }\<close>\<close>

definition CloneIf_body :: "nat \<Rightarrow> nat \<Rightarrow> ('v \<Rightarrow> bool) \<Rightarrow> 'v mem \<Rightarrow> (nat, 'v) res" where
  "CloneIf_body first dest pred =
     bnd (read_slot dest) (\<lambda>d.
     bnd (assert_that (d \<noteq> None)) (\<lambda>u.
     bnd (read_slot first) (\<lambda>f.
     bnd (assert_that (f \<noteq> None)) (\<lambda>u.
     bnd (deref f) (\<lambda>x.
     if pred x
     then bnd (new_copy x) (\<lambda>q. bnd (write_slot dest q) (\<lambda>u. ret (Suc dest)))
     else ret dest)))))"

function CloneIf :: "nat \<Rightarrow> nat \<Rightarrow> nat \<Rightarrow> ('v \<Rightarrow> bool) \<Rightarrow> 'v mem \<Rightarrow> (nat, 'v) res" where
  "CloneIf first last' dest pred s =
     (if first = last' then Inr (dest, s)
      else case CloneIf_body first dest pred s of
             Inl x \<Rightarrow> Inl x
           | Inr (dest', s') \<Rightarrow> CloneIf (Suc first) last' dest' pred s')"
  by pat_completeness auto
termination
  by (relation "measure (\<lambda>(first, last', dest, pred, s). length (slots s) - first)")
     (auto simp: CloneIf_body_def bnd_def ret_def read_slot_def write_slot_def assert_that_def
                 deref_def new_copy_def
           split: if_splits option.splits sum.splits prod.splits list.splits)

text \<open>\<^verbatim>\<open>ReplaceClone\<close>:
  \<^verbatim>\<open>assert(*dest != nullptr); assert(*first != nullptr);
  delete(*dest); *dest = (*first)->Clone();\<close>\<close>

definition ReplaceClone_body :: "nat \<Rightarrow> nat \<Rightarrow> 'v mem \<Rightarrow> (unit, 'v) res" where
  "ReplaceClone_body first dest =
     bnd (read_slot dest) (\<lambda>d.
     bnd (assert_that (d \<noteq> None)) (\<lambda>u.
     bnd (read_slot first) (\<lambda>f.
     bnd (assert_that (f \<noteq> None)) (\<lambda>u.
     bnd (delete_ptr d) (\<lambda>u.
     bnd (deref f) (\<lambda>x.
     bnd (new_copy x) (\<lambda>q.
     write_slot dest q)))))))"

function ReplaceClone :: "nat \<Rightarrow> nat \<Rightarrow> nat \<Rightarrow> 'v mem \<Rightarrow> (nat, 'v) res" where
  "ReplaceClone first last' dest s =
     (if first = last' then Inr (dest, s)
      else case ReplaceClone_body first dest s of
             Inl x \<Rightarrow> Inl x
           | Inr (u, s') \<Rightarrow> ReplaceClone (Suc first) last' (Suc dest) s')"
  by pat_completeness auto
termination
  by (relation "measure (\<lambda>(first, last', dest, s). length (slots s) - first)")
     (auto simp: ReplaceClone_body_def bnd_def read_slot_def write_slot_def assert_that_def
                 deref_def new_copy_def delete_ptr_def
           split: if_splits option.splits sum.splits prod.splits list.splits)

text \<open>\<^verbatim>\<open>ReplaceCloneIf\<close>:
  \<^verbatim>\<open>assert(*dest != nullptr); assert(*first != nullptr);
  if (pred(*(*first))) { delete(*dest); *dest = (*first)->Clone(); ++dest; }\<close>\<close>

definition ReplaceCloneIf_body :: "nat \<Rightarrow> nat \<Rightarrow> ('v \<Rightarrow> bool) \<Rightarrow> 'v mem \<Rightarrow> (nat, 'v) res" where
  "ReplaceCloneIf_body first dest pred =
     bnd (read_slot dest) (\<lambda>d.
     bnd (assert_that (d \<noteq> None)) (\<lambda>u.
     bnd (read_slot first) (\<lambda>f.
     bnd (assert_that (f \<noteq> None)) (\<lambda>u.
     bnd (deref f) (\<lambda>x.
     if pred x
     then bnd (delete_ptr d) (\<lambda>u.
          bnd (deref f) (\<lambda>y.
          bnd (new_copy y) (\<lambda>q.
          bnd (write_slot dest q) (\<lambda>u.
          ret (Suc dest)))))
     else ret dest)))))"

function ReplaceCloneIf :: "nat \<Rightarrow> nat \<Rightarrow> nat \<Rightarrow> ('v \<Rightarrow> bool) \<Rightarrow> 'v mem \<Rightarrow> (nat, 'v) res" where
  "ReplaceCloneIf first last' dest pred s =
     (if first = last' then Inr (dest, s)
      else case ReplaceCloneIf_body first dest pred s of
             Inl x \<Rightarrow> Inl x
           | Inr (dest', s') \<Rightarrow> ReplaceCloneIf (Suc first) last' dest' pred s')"
  by pat_completeness auto
termination
  by (relation "measure (\<lambda>(first, last', dest, pred, s). length (slots s) - first)")
     (auto simp: ReplaceCloneIf_body_def bnd_def ret_def read_slot_def write_slot_def
                 assert_that_def deref_def new_copy_def delete_ptr_def
           split: if_splits option.splits sum.splits prod.splits list.splits)

section \<open>Removal and deduplication\<close>

text \<open>\<^verbatim>\<open>Remove(ForwardIt first, ForwardIt last, const T& value)\<close>: no assertion. The
  parameter \<^verbatim>\<open>value\<close> is a reference (\<open>vref\<close>), read at every comparison. The body
  returns the new \<^verbatim>\<open>result\<close>.
  \<^verbatim>\<open>if (!(*(*first) == value)) { *result = *first; result++; }
  else { delete(*first); *first = nullptr; }\<close>\<close>

definition Remove_body :: "nat \<Rightarrow> nat \<Rightarrow> 'v cref \<Rightarrow> 'v mem \<Rightarrow> (nat, 'v) res" where
  "Remove_body first result vref =
     bnd (read_slot first) (\<lambda>p.
     bnd (deref p) (\<lambda>x.
     bnd (read_ref vref) (\<lambda>v.
     if \<not> (x = v)
     then bnd (write_slot result p) (\<lambda>u. ret (Suc result))
     else bnd (delete_ptr p) (\<lambda>u. bnd (write_slot first None) (\<lambda>u. ret result)))))"

function Remove_loop :: "nat \<Rightarrow> nat \<Rightarrow> nat \<Rightarrow> 'v cref \<Rightarrow> 'v mem \<Rightarrow> (nat, 'v) res" where
  "Remove_loop first last' result vref s =
     (if first = last' then Inr (result, s)
      else case Remove_body first result vref s of
             Inl x \<Rightarrow> Inl x
           | Inr (result', s') \<Rightarrow> Remove_loop (Suc first) last' result' vref s')"
  by pat_completeness auto
termination
  by (relation "measure (\<lambda>(first, last', result, vref, s). length (slots s) - first)")
     (auto simp: Remove_body_def bnd_def ret_def read_slot_def write_slot_def deref_def
                 delete_ptr_def read_ref_def
           split: if_splits option.splits sum.splits prod.splits cref.splits)

text \<open>\<^verbatim>\<open>ForwardIt result = first;\<close> and the loop.\<close>

definition Remove :: "nat \<Rightarrow> nat \<Rightarrow> 'v cref \<Rightarrow> 'v mem \<Rightarrow> (nat, 'v) res" where
  "Remove first last' vref s = Remove_loop first last' first vref s"

text \<open>\<^verbatim>\<open>RemoveIf\<close>: no assertion. The parameter \<^verbatim>\<open>value\<close> is not used by the body:
  \<^verbatim>\<open>if (!pred(*(*first))) { *result = *first; result++; }
  else { delete(*first); *first = nullptr; }\<close>\<close>

definition RemoveIf_body :: "nat \<Rightarrow> nat \<Rightarrow> ('v \<Rightarrow> bool) \<Rightarrow> 'v mem \<Rightarrow> (nat, 'v) res" where
  "RemoveIf_body first result pred =
     bnd (read_slot first) (\<lambda>p.
     bnd (deref p) (\<lambda>x.
     if \<not> pred x
     then bnd (write_slot result p) (\<lambda>u. ret (Suc result))
     else bnd (delete_ptr p) (\<lambda>u. bnd (write_slot first None) (\<lambda>u. ret result))))"

function RemoveIf_loop :: "nat \<Rightarrow> nat \<Rightarrow> nat \<Rightarrow> 'w \<Rightarrow> ('v \<Rightarrow> bool) \<Rightarrow> 'v mem \<Rightarrow> (nat, 'v) res" where
  "RemoveIf_loop first last' result v pred s =
     (if first = last' then Inr (result, s)
      else case RemoveIf_body first result pred s of
             Inl x \<Rightarrow> Inl x
           | Inr (result', s') \<Rightarrow> RemoveIf_loop (Suc first) last' result' v pred s')"
  by pat_completeness auto
termination
  by (relation "measure (\<lambda>(first, last', result, v, pred, s). length (slots s) - first)")
     (auto simp: RemoveIf_body_def bnd_def ret_def read_slot_def write_slot_def deref_def
                 delete_ptr_def
           split: if_splits option.splits sum.splits prod.splits)

definition RemoveIf :: "nat \<Rightarrow> nat \<Rightarrow> 'w \<Rightarrow> ('v \<Rightarrow> bool) \<Rightarrow> 'v mem \<Rightarrow> (nat, 'v) res" where
  "RemoveIf first last' v pred s = RemoveIf_loop first last' first v pred s"

text \<open>\<^verbatim>\<open>Unique\<close>, the overload with \<^verbatim>\<open>operator==\<close>: no assertion. The loop is
  \<^verbatim>\<open>while (++first != last)\<close>; its body, at the incremented \<^verbatim>\<open>first\<close>:
  \<^verbatim>\<open>if (!(*(*result) == *(*first))) { ++result; *result = *first; }
  else { delete(*first); *first = nullptr; }\<close>
  After the loop: \<^verbatim>\<open>++result; return result;\<close>\<close>

definition Unique_body :: "nat \<Rightarrow> nat \<Rightarrow> 'v mem \<Rightarrow> (nat, 'v) res" where
  "Unique_body first result =
     bnd (read_slot result) (\<lambda>r.
     bnd (deref r) (\<lambda>x.
     bnd (read_slot first) (\<lambda>p.
     bnd (deref p) (\<lambda>y.
     if \<not> (x = y)
     then bnd (write_slot (Suc result) p) (\<lambda>u. ret (Suc result))
     else bnd (delete_ptr p) (\<lambda>u. bnd (write_slot first None) (\<lambda>u. ret result))))))"

function Unique_loop :: "nat \<Rightarrow> nat \<Rightarrow> nat \<Rightarrow> 'v mem \<Rightarrow> (nat, 'v) res" where
  "Unique_loop first last' result s =
     (if Suc first = last' then Inr (Suc result, s)
      else case Unique_body (Suc first) result s of
             Inl x \<Rightarrow> Inl x
           | Inr (result', s') \<Rightarrow> Unique_loop (Suc first) last' result' s')"
  by pat_completeness auto
termination
  by (relation "measure (\<lambda>(first, last', result, s). length (slots s) - first)")
     (auto simp: Unique_body_def bnd_def ret_def read_slot_def write_slot_def deref_def
                 delete_ptr_def
           split: if_splits option.splits sum.splits prod.splits)

definition Unique :: "nat \<Rightarrow> nat \<Rightarrow> 'v mem \<Rightarrow> (nat, 'v) res" where
  "Unique first last' s = (if first = last' then Inr (last', s) else Unique_loop first last' first s)"

text \<open>\<^verbatim>\<open>Unique\<close>, the overload with a binary predicate:
  \<^verbatim>\<open>if (!pred(*(*result), *(*first))) { ++result; *result = *first; }
  else { delete(*first); *first = nullptr; }\<close>\<close>

definition Unique_pred_body :: "nat \<Rightarrow> nat \<Rightarrow> ('v \<Rightarrow> 'v \<Rightarrow> bool) \<Rightarrow> 'v mem \<Rightarrow> (nat, 'v) res" where
  "Unique_pred_body first result pred =
     bnd (read_slot result) (\<lambda>r.
     bnd (deref r) (\<lambda>x.
     bnd (read_slot first) (\<lambda>p.
     bnd (deref p) (\<lambda>y.
     if \<not> pred x y
     then bnd (write_slot (Suc result) p) (\<lambda>u. ret (Suc result))
     else bnd (delete_ptr p) (\<lambda>u. bnd (write_slot first None) (\<lambda>u. ret result))))))"

function Unique_pred_loop :: "nat \<Rightarrow> nat \<Rightarrow> nat \<Rightarrow> ('v \<Rightarrow> 'v \<Rightarrow> bool) \<Rightarrow> 'v mem \<Rightarrow> (nat, 'v) res" where
  "Unique_pred_loop first last' result pred s =
     (if Suc first = last' then Inr (Suc result, s)
      else case Unique_pred_body (Suc first) result pred s of
             Inl x \<Rightarrow> Inl x
           | Inr (result', s') \<Rightarrow> Unique_pred_loop (Suc first) last' result' pred s')"
  by pat_completeness auto
termination
  by (relation "measure (\<lambda>(first, last', result, pred, s). length (slots s) - first)")
     (auto simp: Unique_pred_body_def bnd_def ret_def read_slot_def write_slot_def deref_def
                 delete_ptr_def
           split: if_splits option.splits sum.splits prod.splits)

definition Unique_pred :: "nat \<Rightarrow> nat \<Rightarrow> ('v \<Rightarrow> 'v \<Rightarrow> bool) \<Rightarrow> 'v mem \<Rightarrow> (nat, 'v) res" where
  "Unique_pred first last' pred s =
     (if first = last' then Inr (last', s) else Unique_pred_loop first last' first pred s)"

section \<open>Deep copy\<close>

text \<open>The lambda of \<^verbatim>\<open>DeepCopyOfRange\<close>, applied to \<^verbatim>\<open>*first\<close>:
  \<^verbatim>\<open>assert(pLeft != nullptr); return new ValueType(*pLeft);\<close>\<close>

definition DeepCopy_lambda :: "nat \<Rightarrow> 'v mem \<Rightarrow> (ptr, 'v) res" where
  "DeepCopy_lambda first =
     bnd (read_slot first) (\<lambda>pLeft.
     bnd (assert_that (pLeft \<noteq> None)) (\<lambda>u.
     bnd (deref pLeft) (\<lambda>x.
     new_copy x)))"

text \<open>\<^verbatim>\<open>std::transform(first, last, std::back_inserter(result), lambda)\<close>. The new
  container \<^verbatim>\<open>result\<close> is a local of \<^verbatim>\<open>DeepCopyOfRange\<close>; the loop returns it as it
  stands when the loop ends or fails, with the error if any.\<close>

function transform_new :: "nat \<Rightarrow> nat \<Rightarrow> ptr list \<Rightarrow> 'v mem \<Rightarrow> error option \<times> ptr list \<times> 'v mem" where
  "transform_new first last' result s =
     (if first = last' then (None, result, s)
      else case DeepCopy_lambda first s of
             Inl (e, s') \<Rightarrow> (Some e, result, s')
           | Inr (q, s') \<Rightarrow> transform_new (Suc first) last' (result @ [q]) s')"
  by pat_completeness auto
termination
  by (relation "measure (\<lambda>(first, last', result, s). length (slots s) - first)")
     (auto simp: DeepCopy_lambda_def bnd_def read_slot_def assert_that_def deref_def new_copy_def
           split: if_splits option.splits sum.splits prod.splits list.splits)

text \<open>\<^verbatim>\<open>DeepCopyOfRange\<close>. The guard \<^verbatim>\<open>backout\<close> is bound to \<^verbatim>\<open>result\<close>, the only
  container in scope (named by \<open>()\<close>). \<^verbatim>\<open>result.reserve(std::distance(first, last))\<close>
  changes no pointer and no object; for random-access iterators with \<^verbatim>\<open>last\<close> before
  \<^verbatim>\<open>first\<close> the distance is negative and \<^verbatim>\<open>reserve\<close> throws. An exception unwinds the
  stack: the destructor of \<^verbatim>\<open>backout\<close> runs on the contents \<^verbatim>\<open>result\<close> has then, and
  the exception propagates. A failed assertion aborts, with no unwinding. On success
  \<^verbatim>\<open>backout.release()\<close> comes first, and the destructor of the released guard runs at
  the return.\<close>

definition DeepCopyOfRange :: "nat \<Rightarrow> nat \<Rightarrow> 'v mem \<Rightarrow> (ptr list, 'v) res" where
  "DeepCopyOfRange first last' s =
     (let backout = container_wrapper () in
      if last' < first
      then (case container_wrapper_dtor (\<lambda>c. []) backout s of
              Inl x \<Rightarrow> Inl x
            | Inr (u, s') \<Rightarrow> Inl (Thrown, s'))
      else case transform_new first last' [] s of
             (None, result, s') \<Rightarrow>
               (case container_wrapper_dtor (\<lambda>c. result) (release_container backout) s' of
                  Inl x \<Rightarrow> Inl x
                | Inr (u, s'') \<Rightarrow> Inr (result, s''))
           | (Some Thrown, result, s') \<Rightarrow>
               (case container_wrapper_dtor (\<lambda>c. result) backout s' of
                  Inl x \<Rightarrow> Inl x
                | Inr (u, s'') \<Rightarrow> Inl (Thrown, s''))
           | (Some e, result, s') \<Rightarrow> Inl (e, s'))"

text \<open>\<^verbatim>\<open>DeepCopy(container)\<close>: the container passed by reference is the slot array,
  \<^verbatim>\<open>std::cbegin\<close> its index 0 and \<^verbatim>\<open>std::cend\<close> its length.\<close>

definition DeepCopy :: "'v mem \<Rightarrow> (ptr list, 'v) res" where
  "DeepCopy s = DeepCopyOfRange 0 (length (slots s)) s"

section \<open>The functor adapters\<close>

definition UnaryFunctorDerefAdapter :: "('v \<Rightarrow> bool) \<Rightarrow> ptr \<Rightarrow> 'v mem \<Rightarrow> (bool, 'v) res" where
  "UnaryFunctorDerefAdapter func p =
     bnd (assert_that (p \<noteq> None)) (\<lambda>u. bnd (deref p) (\<lambda>x. ret (func x)))"

definition BinaryFunctorDerefAdapter :: "('v \<Rightarrow> 'w \<Rightarrow> bool) \<Rightarrow> ptr \<Rightarrow> 'w \<Rightarrow> 'v mem \<Rightarrow> (bool, 'v) res" where
  "BinaryFunctorDerefAdapter func lhs rhs =
     bnd (assert_that (lhs \<noteq> None)) (\<lambda>u. bnd (deref lhs) (\<lambda>x. ret (func x rhs)))"

definition BinaryFunctorDerefPtrsAdapter :: "('v \<Rightarrow> 'v \<Rightarrow> bool) \<Rightarrow> ptr \<Rightarrow> ptr \<Rightarrow> 'v mem \<Rightarrow> (bool, 'v) res" where
  "BinaryFunctorDerefPtrsAdapter func lhs rhs =
     bnd (assert_that (lhs \<noteq> None)) (\<lambda>u.
     bnd (assert_that (rhs \<noteq> None)) (\<lambda>u.
     bnd (deref lhs) (\<lambda>x.
     bnd (deref rhs) (\<lambda>y.
     ret (func x y)))))"

section \<open>Views of the memory\<close>

text \<open>The pointers in the slots \<open>[first, last')\<close>, the object a pointer points to, and
  the addresses of a list of pointers (a null pointer has none).\<close>

definition slice :: "nat \<Rightarrow> nat \<Rightarrow> 'v mem \<Rightarrow> ptr list" where
  "slice first last' s = take (last' - first) (drop first (slots s))"

definition pointee :: "'v mem \<Rightarrow> ptr \<Rightarrow> 'v option" where
  "pointee s p = (case p of None \<Rightarrow> None | Some a \<Rightarrow> heap s a)"

definition addrs :: "ptr list \<Rightarrow> addr list" where
  "addrs ps = concat (map (\<lambda>p. case p of None \<Rightarrow> [] | Some a \<Rightarrow> [a]) ps)"

text \<open>A pointer is live when it points to an object: it is not null and not dangling.
  A range is owned when it lies in the slot array and its slots hold live pointers, no
  two of them the same. The allocator's list is fresh when its addresses are pairwise
  different and no object lives at any of them.\<close>

definition live :: "'v mem \<Rightarrow> ptr \<Rightarrow> bool" where
  "live s p = (pointee s p \<noteq> None)"

definition owned :: "nat \<Rightarrow> nat \<Rightarrow> 'v mem \<Rightarrow> bool" where
  "owned first last' s =
     (first \<le> last' \<and> last' \<le> length (slots s) \<and>
      list_all (live s) (slice first last' s) \<and> distinct (slice first last' s))"

definition fresh_tape :: "'v mem \<Rightarrow> bool" where
  "fresh_tape s = (distinct (avail s) \<and> list_all (\<lambda>a. heap s a = None) (avail s))"

text \<open>A pointer satisfies a predicate when its pointee does. For \<^verbatim>\<open>Remove\<close> and
  \<^verbatim>\<open>RemoveIf\<close> over \<open>[first, last')\<close>: the pointers that stay and those that go, in
  the order of the range.\<close>

definition sat :: "'v mem \<Rightarrow> ('v \<Rightarrow> bool) \<Rightarrow> ptr \<Rightarrow> bool" where
  "sat s pred p = (case pointee s p of None \<Rightarrow> False | Some x \<Rightarrow> pred x)"

definition survivors :: "nat \<Rightarrow> nat \<Rightarrow> ('v \<Rightarrow> bool) \<Rightarrow> 'v mem \<Rightarrow> ptr list" where
  "survivors first last' pred s = filter (\<lambda>p. \<not> sat s pred p) (slice first last' s)"

definition removed :: "nat \<Rightarrow> nat \<Rightarrow> ('v \<Rightarrow> bool) \<Rightarrow> 'v mem \<Rightarrow> ptr list" where
  "removed first last' pred s = filter (sat s pred) (slice first last' s)"

text \<open>The object a reference is bound to, if it is there; and a reference that stays
  clear of a list of pointers: it is bound to an object outside the heap, or to a heap
  object that none of the pointers points to.\<close>

definition referent :: "'v mem \<Rightarrow> 'v cref \<Rightarrow> 'v option" where
  "referent s r = (case r of Outside x \<Rightarrow> Some x | Inside a \<Rightarrow> heap s a)"

definition clear_of :: "'v cref \<Rightarrow> ptr list \<Rightarrow> bool" where
  "clear_of r ps = (case r of Outside x \<Rightarrow> True | Inside a \<Rightarrow> Some a \<notin> set ps)"

text \<open>For \<^verbatim>\<open>Unique\<close>: two pointers are the same under \<open>pred\<close> when \<open>pred\<close> holds of
  their pointees. Walking a list of pointers after a pointer \<open>r\<close> that was kept, a
  pointer that is the same as the last kept one is a duplicate; any other is kept and
  becomes the one to compare with. The representatives of a range are its first pointer
  and the pointers kept after it. The values of a range are the pointees of its live
  pointers.\<close>

definition same :: "'v mem \<Rightarrow> ('v \<Rightarrow> 'v \<Rightarrow> bool) \<Rightarrow> ptr \<Rightarrow> ptr \<Rightarrow> bool" where
  "same s pred r p = (case pointee s r of None \<Rightarrow> False | Some x \<Rightarrow> sat s (pred x) p)"

fun uniq_keep :: "(ptr \<Rightarrow> ptr \<Rightarrow> bool) \<Rightarrow> ptr \<Rightarrow> ptr list \<Rightarrow> ptr list" where
  "uniq_keep eq r [] = []"
| "uniq_keep eq r (p # ps) = (if eq r p then uniq_keep eq r ps else p # uniq_keep eq p ps)"

fun uniq_drop :: "(ptr \<Rightarrow> ptr \<Rightarrow> bool) \<Rightarrow> ptr \<Rightarrow> ptr list \<Rightarrow> ptr list" where
  "uniq_drop eq r [] = []"
| "uniq_drop eq r (p # ps) = (if eq r p then p # uniq_drop eq r ps else uniq_drop eq p ps)"

definition representatives :: "nat \<Rightarrow> nat \<Rightarrow> ('v \<Rightarrow> 'v \<Rightarrow> bool) \<Rightarrow> 'v mem \<Rightarrow> ptr list" where
  "representatives first last' pred s =
     (case slice first last' s of [] \<Rightarrow> [] | p # ps \<Rightarrow> p # uniq_keep (same s pred) p ps)"

definition duplicates :: "nat \<Rightarrow> nat \<Rightarrow> ('v \<Rightarrow> 'v \<Rightarrow> bool) \<Rightarrow> 'v mem \<Rightarrow> ptr list" where
  "duplicates first last' pred s =
     (case slice first last' s of [] \<Rightarrow> [] | p # ps \<Rightarrow> uniq_drop (same s pred) p ps)"

definition vals :: "nat \<Rightarrow> nat \<Rightarrow> 'v mem \<Rightarrow> 'v list" where
  "vals first last' s = List.map_filter (pointee s) (slice first last' s)"

text \<open>After a compaction of \<open>[first, last')\<close> that returned \<open>r\<close>: every slot of the tail
  \<open>[r, last')\<close> is null or repeats a pointer of the prefix \<open>[first, r)\<close>; and every
  pointer the range held before (in the memory \<open>s\<close>) is in the prefix or points to no
  live object any more.\<close>

definition tail_ok :: "nat \<Rightarrow> nat \<Rightarrow> nat \<Rightarrow> 'v mem \<Rightarrow> bool" where
  "tail_ok first r last' s' =
     list_all (\<lambda>p. p = None \<or> p \<in> set (slice first r s')) (slice r last' s')"

definition accounted :: "nat \<Rightarrow> nat \<Rightarrow> nat \<Rightarrow> 'v mem \<Rightarrow> 'v mem \<Rightarrow> bool" where
  "accounted first r last' s s' =
     list_all (\<lambda>p. p \<in> set (slice first r s') \<or> pointee s' p = None) (slice first last' s)"


text \<open>What a caller sees of a call that returned an iterator: the iterator and the
  pointees of the \<open>n\<close> slots from \<open>dest\<close> on.\<close>

definition dest_view :: "nat \<Rightarrow> nat \<Rightarrow> (nat, 'v) res \<Rightarrow> (nat \<times> 'v option list) option" where
  "dest_view dest n r =
     (case r of
        Inl x \<Rightarrow> None
      | Inr (d, s') \<Rightarrow> Some (d, map (pointee s') (slice dest (dest + n) s')))"

text \<open>Of a call from the source slots \<open>[first, last')\<close> to the destination slots from
  \<open>dest\<close> on: the iterator it returned, the pointers in the destination slots, their
  pointees, and the pointees of the source slots, all after the call.\<close>

definition ranges_view ::
  "nat \<Rightarrow> nat \<Rightarrow> nat \<Rightarrow> (nat, 'v) res \<Rightarrow> (nat \<times> ptr list \<times> 'v option list \<times> 'v option list) option" where
  "ranges_view first last' dest r =
     (case r of
        Inl x \<Rightarrow> None
      | Inr (d, s') \<Rightarrow>
          Some (d, slice dest (dest + (last' - first)) s',
                map (pointee s') (slice dest (dest + (last' - first)) s'),
                map (pointee s') (slice first last' s')))"

text \<open>Eight slots owning the objects 1, 2, 3, 4, 0, 0, 0, 0 at the addresses 1 to 8.\<close>

definition example_mem :: "int mem" where
  "example_mem =
     \<lparr>slots = [Some 1, Some 2, Some 3, Some 4, Some 5, Some 6, Some 7, Some 8],
      heap = map_of [(1, 1), (2, 2), (3, 3), (4, 4), (5, 0), (6, 0), (7, 0), (8, 0)],
      freed = [], avail = [10, 11, 12, 13, 14, 15, 16, 17]\<rparr>"

text \<open>Three slots owning the objects 1, 9, 9 at the addresses 1 to 3.\<close>

definition example_unique :: "int mem" where
  "example_unique =
     \<lparr>slots = [Some 1, Some 2, Some 3], heap = map_of [(1, 1), (2, 9), (3, 9)],
      freed = [], avail = []\<rparr>"

text \<open>The eight slots of \<open>example_mem\<close>, with a null pointer in slot 1.\<close>

definition example_null :: "int mem" where
  "example_null = example_mem\<lparr>slots := (slots example_mem)[1 := None]\<rparr>"

text \<open>Two slots owning the objects 1 and 2 and two more slots holding the same two
  pointers (a shallow copy of the first two); and two slots owning the objects 1 and 2
  followed by two slots that both hold the pointer to a third object.\<close>

definition example_shallow :: "int mem" where
  "example_shallow =
     \<lparr>slots = [Some 1, Some 2, Some 1, Some 2], heap = map_of [(1, 1), (2, 2)],
      freed = [], avail = [10, 11]\<rparr>"



text \<open>Three slots owning the objects 2, 2, 3 at the addresses 1 to 3.\<close>

definition example_twos :: "int mem" where
  "example_twos =
     \<lparr>slots = [Some 1, Some 2, Some 3], heap = map_of [(1, 2), (2, 2), (3, 3)],
      freed = [], avail = []\<rparr>"

declare range_wrapper_dtor.simps [simp del]
declare Copy.simps [simp del] CopyN_loop.simps [simp del] CopyBackward.simps [simp del]
declare CopyIf.simps [simp del] ReplaceCopy.simps [simp del] ReplaceCopyIf.simps [simp del]
declare Clone.simps [simp del] CloneIf.simps [simp del] ReplaceClone.simps [simp del]
declare ReplaceCloneIf.simps [simp del] Remove_loop.simps [simp del]
declare RemoveIf_loop.simps [simp del] Unique_loop.simps [simp del]
declare Unique_pred_loop.simps [simp del] transform_new.simps [simp del]

section \<open>Filtered algorithms: where the destination moves\<close>

lemma ReplaceCopyIf_returns:
  "ReplaceCopyIf first last' dest pred s = Inr (d, s') \<Longrightarrow> first \<le> last' \<Longrightarrow>
   d = dest + (last' - first)"
proof (induction first last' dest pred s rule: ReplaceCopyIf.induct)
  case (1 first last' dest pred s)
  show ?case
  proof (cases "first = last'")
    case True
    with "1.prems" show ?thesis by (simp add: ReplaceCopyIf.simps)
  next
    case False
    with "1.prems" obtain s1 where
      b: "ReplaceCopyIf_body first dest pred s = Inr ((), s1)" and
      r: "ReplaceCopyIf (Suc first) last' (Suc dest) pred s1 = Inr (d, s')"
      by (subst (asm) ReplaceCopyIf.simps) (auto split: sum.splits)
    from False "1.prems" have "Suc first \<le> last'" by simp
    with "1.IH" [OF False b refl r] have "d = Suc dest + (last' - Suc first)" by simp
    with False "1.prems" show ?thesis by simp
  qed
qed

text \<open>
  C1 (fails on the code for \<^verbatim>\<open>ReplaceCopyIf\<close>). Source values 1, 2, 3, 4 in the slots
  0 to 3, destination slots 4 to 7 holding 0, predicate "even". \<^verbatim>\<open>CopyIf\<close>,
  \<^verbatim>\<open>CloneIf\<close> and \<^verbatim>\<open>ReplaceCloneIf\<close> write 2 and 4 to the first two destination slots
  and return the start advanced by the two matches. \<^verbatim>\<open>ReplaceCopyIf\<close> returns the start
  advanced by four, and writes 2 and 4 at the positions of their sources (the second and
  the fourth destination slot): its destination moves on every element, matching or
  not.
\<close>

theorem ReplaceCopyIf_moves_dest_on_every_element:
  "dest_view 4 4 (ReplaceCopyIf 0 4 4 (\<lambda>x. x mod 2 = 0) example_mem)
     = Some (8, [Some 0, Some 2, Some 0, Some 4]) \<and>
   dest_view 4 4 (CopyIf 0 4 4 (\<lambda>x. x mod 2 = 0) example_mem)
     = Some (6, [Some 2, Some 4, Some 0, Some 0]) \<and>
   dest_view 4 4 (CloneIf 0 4 4 (\<lambda>x. x mod 2 = 0) example_mem)
     = Some (6, [Some 2, Some 4, Some 0, Some 0]) \<and>
   dest_view 4 4 (ReplaceCloneIf 0 4 4 (\<lambda>x. x mod 2 = 0) example_mem)
     = Some (6, [Some 2, Some 4, Some 0, Some 0])"
  by code_simp

section \<open>\<^verbatim>\<open>RemoveIf\<close> and its value argument\<close>

lemma RemoveIf_loop_value_unused:
  "RemoveIf_loop first last' result v pred s = RemoveIf_loop first last' result w pred s"
proof (induction first last' result v pred s rule: RemoveIf_loop.induct)
  case (1 first last' result v pred s)
  show ?case
  proof (cases "first = last'")
    case True
    then show ?thesis by (simp add: RemoveIf_loop.simps)
  next
    case False
    show ?thesis
    proof (cases "RemoveIf_body first result pred s")
      case (Inl x)
      with False show ?thesis by (simp add: RemoveIf_loop.simps [of first last'])
    next
      case (Inr rs)
      obtain r s1 where rs: "rs = (r, s1)" by (cases rs)
      from "1.IH" [OF False Inr rs [symmetric]] False Inr rs show ?thesis
        by (simp add: RemoveIf_loop.simps [of first last'])
    qed
  qed
qed

lemma RemoveIf_value_unused: "RemoveIf first last' v pred s = RemoveIf first last' w pred s"
  unfolding RemoveIf_def by (rule RemoveIf_loop_value_unused)

text \<open>
  C7 (fails on the code). Pointees 1, 2, 3 in the slots 0 to 2 and the predicate
  "equals 2": with the value argument 1 and with the value argument 3 the call removes
  the element 2 and nothing else, returning the end 2 over the pointees 1 and 3. The
  value argument takes no part in the decision; \<^verbatim>\<open>RemoveIf\<close> calls \<^verbatim>\<open>pred\<close> with the
  pointee alone.
\<close>

theorem RemoveIf_ignores_value:
  "dest_view 0 2 (RemoveIf 0 3 (1::int) (\<lambda>x. x = 2) example_mem) = Some (2, [Some 1, Some 3]) \<and>
   dest_view 0 2 (RemoveIf 0 3 (3::int) (\<lambda>x. x = 2) example_mem) = Some (2, [Some 1, Some 3])"
  by code_simp

section \<open>Assertions\<close>

text \<open>
  C8 (fails on the code). On a range whose second slot holds a null pointer,
  \<^verbatim>\<open>Copy\<close>, \<^verbatim>\<open>CopyIf\<close>, the replace and the clone families and the deep copy stop at
  their assertion. \<^verbatim>\<open>CopyN\<close>, \<^verbatim>\<open>CopyBackward\<close>, \<^verbatim>\<open>Remove\<close>, \<^verbatim>\<open>RemoveIf\<close> and both
  overloads of \<^verbatim>\<open>Unique\<close> have no assertion: they dereference the null pointer.
\<close>

theorem unasserted_null_dereference:
  "outcome (Copy 0 2 4 example_null) = Inl AssertFailed \<and>
   outcome (CopyIf 0 2 4 (\<lambda>x. True) example_null) = Inl AssertFailed \<and>
   outcome (ReplaceCopy 0 2 4 example_null) = Inl AssertFailed \<and>
   outcome (ReplaceCopyIf 0 2 4 (\<lambda>x. True) example_null) = Inl AssertFailed \<and>
   outcome (Clone 0 2 4 example_null) = Inl AssertFailed \<and>
   outcome (CloneIf 0 2 4 (\<lambda>x. True) example_null) = Inl AssertFailed \<and>
   outcome (ReplaceClone 0 2 4 example_null) = Inl AssertFailed \<and>
   outcome (ReplaceCloneIf 0 2 4 (\<lambda>x. True) example_null) = Inl AssertFailed \<and>
   outcome (DeepCopyOfRange 0 2 example_null) = Inl AssertFailed \<and>
   outcome (CopyN 0 2 4 example_null) = Inl NullDeref \<and>
   outcome (CopyN 4 2 0 example_null) = Inl NullDeref \<and>
   outcome (CopyBackward 0 2 6 example_null) = Inl NullDeref \<and>
   outcome (CopyBackward 4 6 2 example_null) = Inl NullDeref \<and>
   outcome (Remove 0 2 (Outside 5) example_null) = Inl NullDeref \<and>
   outcome (RemoveIf 0 2 () (\<lambda>x. False) example_null) = Inl NullDeref \<and>
   outcome (Unique 0 2 example_null) = Inl NullDeref \<and>
   outcome (Unique_pred 0 2 (\<lambda>x y. False) example_null) = Inl NullDeref"
  by code_simp

section \<open>Lists of slots and of addresses\<close>

lemma slice_Cons:
  "first < last' \<Longrightarrow> last' \<le> length (slots s) \<Longrightarrow>
   slice first last' s = slots s ! first # slice (Suc first) last' s"
  unfolding slice_def
  by (metis Cons_nth_drop_Suc Suc_diff_Suc less_le_trans take_Suc_Cons)

lemma slice_empty [simp]: "slice first first s = []"
  by (simp add: slice_def)

lemma length_slice: "last' \<le> length (slots s) \<Longrightarrow> length (slice first last' s) = last' - first"
  by (simp add: slice_def)

lemma slice_slots_cong: "slots s' = slots s \<Longrightarrow> slice first last' s' = slice first last' s"
  by (simp add: slice_def)

lemma slice_eq_frame:
  "length (slots s') = length (slots s) \<Longrightarrow> last' \<le> length (slots s) \<Longrightarrow>
   (\<And>j. first \<le> j \<Longrightarrow> j < last' \<Longrightarrow> slots s' ! j = slots s ! j) \<Longrightarrow>
   slice first last' s' = slice first last' s"
  unfolding slice_def by (rule nth_equalityI) simp_all

lemma addrs_Nil [simp]: "addrs [] = []"
  by (simp add: addrs_def)

lemma addrs_Cons_Some [simp]: "addrs (Some a # ps) = a # addrs ps"
  by (simp add: addrs_def)

lemma addrs_Cons_None [simp]: "addrs (None # ps) = addrs ps"
  by (simp add: addrs_def)

lemma addrs_append [simp]: "addrs (ps @ qs) = addrs ps @ addrs qs"
  by (simp add: addrs_def)

section \<open>The scoped range guard\<close>

lemma delete_all_ok:
  "distinct (addrs ps) \<Longrightarrow> \<forall>a \<in> set (addrs ps). heap s a \<noteq> None \<Longrightarrow>
   delete_all ps s =
     Inr ((), s\<lparr>heap := (\<lambda>a. if a \<in> set (addrs ps) then None else heap s a),
                freed := freed s @ addrs ps\<rparr>)"
proof (induction ps arbitrary: s)
  case Nil
  then show ?case by simp
next
  case (Cons p ps)
  show ?case
  proof (cases p)
    case None
    with Cons show ?thesis by (simp add: delete_ptr_def)
  next
    case (Some a)
    let ?s1 = "s\<lparr>heap := (heap s)(a := None), freed := freed s @ [a]\<rparr>"
    from Some Cons.prems obtain y where y: "heap s a = Some y" by auto
    from Some y have d: "delete_ptr p s = Inr ((), ?s1)" by (simp add: delete_ptr_def)
    from Some Cons.prems have 1: "distinct (addrs ps)" and 2: "a \<notin> set (addrs ps)" by auto
    from Some Cons.prems 2 have 3: "\<forall>b \<in> set (addrs ps). heap ?s1 b \<noteq> None" by auto
    have "(\<lambda>b. if b \<in> set (addrs ps) then None else heap ?s1 b)
          = (\<lambda>b. if b \<in> set (addrs (p # ps)) then None else heap s b)"
      using Some by (auto simp: fun_eq_iff)
    with Cons.IH [OF 1 3] d Some show ?thesis by simp
  qed
qed

lemma range_wrapper_dtor_delete_all:
  "last_m w = first_m w + n \<Longrightarrow> last_m w \<le> length (slots s) \<Longrightarrow>
   range_wrapper_dtor w s =
     (case delete_all (slice (first_m w) (last_m w) s) s of
        Inl x \<Rightarrow> Inl x
      | Inr (u, s') \<Rightarrow> Inr (w\<lparr>first_m := last_m w\<rparr>, s'))"
proof (induction n arbitrary: w s)
  case 0
  then show ?case by (simp add: range_wrapper_dtor.simps)
next
  case (Suc n)
  let ?p = "slots s ! first_m w"
  from Suc.prems have lt: "first_m w < last_m w" and ne: "first_m w \<noteq> last_m w" by auto
  from lt Suc.prems have sl: "slice (first_m w) (last_m w) s = ?p # slice (Suc (first_m w)) (last_m w) s"
    by (simp add: slice_Cons)
  show ?case
  proof (cases "delete_ptr ?p s")
    case (Inl x)
    with lt Suc.prems have "range_wrapper_dtor_body w s = Inl x"
      by (simp add: range_wrapper_dtor_body_def bnd_def read_slot_def)
    with ne Inl sl show ?thesis by (simp add: range_wrapper_dtor.simps [of w])
  next
    case (Inr us)
    obtain u s1 where us: "us = (u, s1)" by (cases us)
    let ?w1 = "w\<lparr>first_m := Suc (first_m w)\<rparr>"
    from Inr us have sl1: "slots s1 = slots s"
      by (auto simp: delete_ptr_def split: option.splits)
    from Inr us lt Suc.prems have b: "range_wrapper_dtor_body w s = Inr (?w1, s1)"
      by (simp add: range_wrapper_dtor_body_def bnd_def read_slot_def ret_def)
    from Suc.prems sl1 have "last_m ?w1 = first_m ?w1 + n" "last_m ?w1 \<le> length (slots s1)" by simp_all
    from Suc.IH [OF this] b ne Inr us sl sl1 show ?thesis
      by (auto simp: range_wrapper_dtor.simps [of w] slice_slots_cong [OF sl1] split: sum.splits)
  qed
qed


text \<open>
  C9. A guard holding the slots \<open>[first_, last_)\<close>: \<^verbatim>\<open>release()\<close> returns \<^verbatim>\<open>last_\<close> and
  leaves the guard with the empty range \<open>[last_, last_)\<close>, and the destructor of the
  released guard changes nothing in the memory. The destructor of a guard that was not
  released deletes the pointers of its slots in order from \<^verbatim>\<open>first_\<close> to \<^verbatim>\<open>last_\<close>, each
  once (the log grows by exactly their addresses), the objects at these addresses die,
  every other object, every slot and the allocator stay as they were. The slots of the
  range hold null pointers or pointers to live objects, no two the same object.
\<close>

theorem range_guard_release_and_destruction:
  fixes w :: raii_ptrs_range_wrapper and s :: "'v mem"
  assumes "first_m w \<le> last_m w" and "last_m w \<le> length (slots s)"
    and "distinct (addrs (slice (first_m w) (last_m w) s))"
    and "\<forall>a \<in> set (addrs (slice (first_m w) (last_m w) s)). heap s a \<noteq> None"
  shows "fst (release w) = last_m w \<and>
         first_m (snd (release w)) = last_m w \<and> last_m (snd (release w)) = last_m w \<and>
         range_wrapper_dtor (snd (release w)) s = Inr (snd (release w), s) \<and>
         range_wrapper_dtor w s =
           Inr (w\<lparr>first_m := last_m w\<rparr>,
                s\<lparr>heap := (\<lambda>a. if a \<in> set (addrs (slice (first_m w) (last_m w) s)) then None
                               else heap s a),
                  freed := freed s @ addrs (slice (first_m w) (last_m w) s)\<rparr>)"
proof -
  from assms(1) have n: "last_m w = first_m w + (last_m w - first_m w)" by simp
  have "range_wrapper_dtor (snd (release w)) s = Inr (snd (release w), s)"
    by (simp add: release_def range_wrapper_dtor.simps)
  moreover have "range_wrapper_dtor w s =
           Inr (w\<lparr>first_m := last_m w\<rparr>,
                s\<lparr>heap := (\<lambda>a. if a \<in> set (addrs (slice (first_m w) (last_m w) s)) then None
                               else heap s a),
                  freed := freed s @ addrs (slice (first_m w) (last_m w) s)\<rparr>)"
    by (simp add: range_wrapper_dtor_delete_all [OF n assms(2)] delete_all_ok [OF assms(3,4)])
  ultimately show ?thesis by (simp add: release_def)
qed

theorem range_guard_witness:
  "first_m (range_wrapper 1 3) \<le> last_m (range_wrapper 1 3) \<and>
   last_m (range_wrapper 1 3) \<le> length (slots example_mem) \<and>
   addrs (slice 1 3 example_mem) = [2, 3] \<and>
   heap example_mem 2 = Some 2 \<and> heap example_mem 3 = Some 3 \<and>
   (\<exists>w' s'. range_wrapper_dtor (range_wrapper 1 3) example_mem = Inr (w', s') \<and>
      first_m w' = 3 \<and> freed s' = [2, 3] \<and> heap s' 2 = None \<and> heap s' 3 = None \<and>
      heap s' 1 = Some 1 \<and> heap s' 4 = Some 4 \<and> slots s' = slots example_mem) \<and>
   (\<exists>w'. release (range_wrapper 1 3) = (3, w') \<and>
      range_wrapper_dtor w' example_mem = Inr (w', example_mem))"
proof -
  let ?w = "range_wrapper 1 3"
  have sl: "slice (first_m ?w) (last_m ?w) example_mem = [Some 2, Some 3]"
    by (simp add: range_wrapper_def slice_def example_mem_def)
  have h1: "first_m ?w \<le> last_m ?w" by (simp add: range_wrapper_def)
  have h2: "last_m ?w \<le> length (slots example_mem)" by (simp add: range_wrapper_def example_mem_def)
  have h3: "distinct (addrs (slice (first_m ?w) (last_m ?w) example_mem))" unfolding sl by simp
  have h4: "\<forall>a \<in> set (addrs (slice (first_m ?w) (last_m ?w) example_mem)). heap example_mem a \<noteq> None"
    unfolding sl by (simp add: example_mem_def)
  from range_guard_release_and_destruction [OF h1 h2 h3 h4] show ?thesis
    unfolding sl by (simp add: range_wrapper_def release_def example_mem_def slice_def)
qed

section \<open>Deep copy under the container guard\<close>

lemma live_Some: "live s p \<Longrightarrow> \<exists>a x. p = Some a \<and> heap s a = Some x"
  by (cases p) (auto simp: live_def pointee_def)

lemma new_copy_fresh:
  "avail s = a # rest \<Longrightarrow> heap s a = None \<Longrightarrow>
   new_copy x s = Inr (Some a, s\<lparr>heap := (heap s)(a \<mapsto> x), avail := rest\<rparr>)"
  by (simp add: new_copy_def)

lemma new_copy_empty: "avail s = [] \<Longrightarrow> new_copy x s = Inl (Thrown, s)"
  by (simp add: new_copy_def)

lemma DeepCopy_lambda_eq:
  "first < length (slots s) \<Longrightarrow> slots s ! first = Some f \<Longrightarrow> heap s f = Some x \<Longrightarrow>
   DeepCopy_lambda first s = new_copy x s"
  by (simp add: DeepCopy_lambda_def bnd_def read_slot_def assert_that_def deref_def)

lemma transform_new_fresh:
  "last' = first + n \<Longrightarrow> last' \<le> length (slots s) \<Longrightarrow>
   list_all (live s) (slice first last' s) \<Longrightarrow> fresh_tape s \<Longrightarrow>
   \<exists>s'. transform_new first last' result s =
          (if n \<le> length (avail s) then None else Some Thrown,
           result @ map Some (take n (avail s)), s') \<and>
        slots s' = slots s \<and> freed s' = freed s \<and> avail s' = drop n (avail s) \<and>
        (\<forall>a. a \<notin> set (take n (avail s)) \<longrightarrow> heap s' a = heap s a) \<and>
        map (heap s') (take n (avail s)) =
          take (length (avail s)) (map (pointee s) (slice first last' s))"
proof (induction n arbitrary: first result s)
  case 0
  then show ?case by (simp add: transform_new.simps)
next
  case (Suc n)
  let ?p = "slots s ! first"
  from Suc.prems have lt: "first < last'" and ne: "first \<noteq> last'" and fl: "first < length (slots s)"
    by auto
  from lt Suc.prems have sl: "slice first last' s = ?p # slice (Suc first) last' s"
    by (simp add: slice_Cons)
  with Suc.prems have "live s ?p" and lv: "list_all (live s) (slice (Suc first) last' s)" by simp_all
  then obtain f x where f: "?p = Some f" and x: "heap s f = Some x" by (auto dest: live_Some)
  have lam: "DeepCopy_lambda first s = new_copy x s"
    using fl f x by (rule DeepCopy_lambda_eq)
  show ?case
  proof (cases "avail s")
    case Nil
    with lam ne show ?thesis by (simp add: transform_new.simps [of first] new_copy_empty)
  next
    case (Cons a rest)
    let ?s1 = "s\<lparr>heap := (heap s)(a \<mapsto> x), avail := rest\<rparr>"
    from Cons Suc.prems have a: "heap s a = None" and ar: "a \<notin> set rest"
      and dr: "distinct rest" and fr: "list_all (\<lambda>b. heap s b = None) rest"
      by (simp_all add: fresh_tape_def)
    from lam Cons a have lam1: "DeepCopy_lambda first s = Inr (Some a, ?s1)"
      by (simp add: new_copy_fresh)
    have p1: "pointee ?s1 q = pointee s q" if "live s q" for q
      using that a by (cases q) (auto simp: live_def pointee_def)
    have 1: "last' = Suc first + n" using Suc.prems by simp
    have 2: "last' \<le> length (slots ?s1)" using Suc.prems by simp
    have sl1: "slice (Suc first) last' ?s1 = slice (Suc first) last' s" by (simp add: slice_def)
    have 3: "list_all (live ?s1) (slice (Suc first) last' ?s1)"
      unfolding sl1 using lv p1 by (auto simp: list_all_iff live_def)
    have 4: "fresh_tape ?s1"
      using dr fr ar by (auto simp: fresh_tape_def list_all_iff)
    from Suc.IH [OF 1 2 3 4, of "result @ [Some a]"] obtain s' where
      t: "transform_new (Suc first) last' (result @ [Some a]) ?s1 =
            (if n \<le> length rest then None else Some Thrown,
             (result @ [Some a]) @ map Some (take n rest), s')" and
      k: "slots s' = slots s" "freed s' = freed s" "avail s' = drop n rest" and
      fr': "\<forall>b. b \<notin> set (take n rest) \<longrightarrow> heap s' b = heap ?s1 b" and
      m: "map (heap s') (take n rest) =
            take (length rest) (map (pointee ?s1) (slice (Suc first) last' ?s1))"
      by auto
    from ar have "a \<notin> set (take n rest)" by (auto dest: in_set_takeD)
    with fr' have ha: "heap s' a = Some x" by simp
    have "map (pointee ?s1) (slice (Suc first) last' ?s1) = map (pointee s) (slice (Suc first) last' s)"
      unfolding sl1 using lv p1 by (auto simp: list_all_iff)
    with m have m': "map (heap s') (take n rest) =
            take (length rest) (map (pointee s) (slice (Suc first) last' s))" by simp
    have "transform_new first last' result s =
            (if Suc n \<le> length (avail s) then None else Some Thrown,
             result @ map Some (take (Suc n) (avail s)), s')"
      using t lam1 ne Cons by (simp add: transform_new.simps [of first])
    moreover have "\<forall>b. b \<notin> set (take (Suc n) (avail s)) \<longrightarrow> heap s' b = heap s b"
      using fr' Cons by auto
    moreover have "map (heap s') (take (Suc n) (avail s)) =
          take (length (avail s)) (map (pointee s) (slice first last' s))"
      using m' ha Cons sl f x by (simp add: pointee_def)
    ultimately show ?thesis using k Cons by simp
  qed
qed


lemma slice_all: "slice 0 (length (slots s)) s = slots s"
  by (simp add: slice_def)

lemma pointee_Some [simp]: "pointee s (Some a) = heap s a"
  by (simp add: pointee_def)

lemma map_pointee_Some: "map (pointee s) (map Some as) = map (heap s) as"
  by simp

text \<open>
  C2. \<^verbatim>\<open>DeepCopyOfRange\<close> over slots holding live pointers, with an allocator that
  hands out the fresh addresses \<open>avail\<close>. If these are fewer than the source elements,
  say \<open>N - 1\<close> of them, the construction of the \<open>N\<close>-th element throws: at that moment
  the new container holds the \<open>N - 1\<close> pointers constructed so far, all live; the
  destructor of the armed guard deletes each of them once (the log grows by exactly
  their addresses), the heap is again what it was before the call, and the call ends
  with the exception: no container is returned. If the addresses suffice, the call
  returns the container of the new pointers, one per source element, all live; the
  guard was released, so its destructor leaves the memory as it is and nothing is
  deleted. \<^verbatim>\<open>DeepCopy\<close> is \<^verbatim>\<open>DeepCopyOfRange\<close> over the whole container.
\<close>

theorem deep_copy_guard:
  fixes s :: "'v mem"
  assumes "first \<le> last'" and "last' \<le> length (slots s)"
    and "list_all (live s) (slice first last' s)" and "fresh_tape s"
  shows "(length (avail s) < last' - first \<longrightarrow>
           (\<exists>s1 s'. transform_new first last' [] s = (Some Thrown, map Some (avail s), s1) \<and>
                list_all (live s1) (map Some (avail s)) \<and>
                container_wrapper_dtor (\<lambda>c. map Some (avail s)) (container_wrapper ()) s1 =
                  Inr ((), s') \<and>
                DeepCopyOfRange first last' s = Inl (Thrown, s') \<and>
                freed s' = freed s @ avail s \<and> heap s' = heap s \<and> slots s' = slots s)) \<and>
         (last' - first \<le> length (avail s) \<longrightarrow>
           (\<exists>s'. DeepCopyOfRange first last' s =
                    Inr (map Some (take (last' - first) (avail s)), s') \<and>
                container_wrapper_dtor (\<lambda>c. map Some (take (last' - first) (avail s)))
                    (release_container (container_wrapper ())) s' = Inr ((), s') \<and>
                list_all (live s') (map Some (take (last' - first) (avail s))) \<and>
                freed s' = freed s \<and> slots s' = slots s)) \<and>
         DeepCopy s = DeepCopyOfRange 0 (length (slots s)) s"
proof -
  let ?n = "last' - first"
  from assms(1) have n: "last' = first + ?n" by simp
  from transform_new_fresh [OF n assms(2,3,4), of "[]"] obtain s1 where
    t: "transform_new first last' [] s =
          (if ?n \<le> length (avail s) then None else Some Thrown, map Some (take ?n (avail s)), s1)"
    and k: "slots s1 = slots s" "freed s1 = freed s" "avail s1 = drop ?n (avail s)"
    and fr: "\<forall>a. a \<notin> set (take ?n (avail s)) \<longrightarrow> heap s1 a = heap s a"
    and m: "map (heap s1) (take ?n (avail s)) =
              take (length (avail s)) (map (pointee s) (slice first last' s))"
    by auto
  from assms(3) have lv: "\<forall>v \<in> set (map (pointee s) (slice first last' s)). v \<noteq> None"
    by (auto simp: list_all_iff live_def)
  have "\<forall>v \<in> set (map (heap s1) (take ?n (avail s))). v \<noteq> None"
    unfolding m using lv by (meson in_set_takeD)
  then have lv1: "list_all (live s1) (map Some (take ?n (avail s)))"
    by (auto simp: list_all_iff live_def)
  from assms(1) have nlt: "\<not> last' < first" by simp
  have fail: "\<exists>s1 s'. transform_new first last' [] s = (Some Thrown, map Some (avail s), s1) \<and>
                list_all (live s1) (map Some (avail s)) \<and>
                container_wrapper_dtor (\<lambda>c. map Some (avail s)) (container_wrapper ()) s1 =
                  Inr ((), s') \<and>
                DeepCopyOfRange first last' s = Inl (Thrown, s') \<and>
                freed s' = freed s @ avail s \<and> heap s' = heap s \<and> slots s' = slots s"
    if short: "length (avail s) < ?n"
  proof -
    from short have tk: "take ?n (avail s) = avail s" by simp
    let ?s' = "s1\<lparr>heap := (\<lambda>a. if a \<in> set (avail s) then None else heap s1 a),
                  freed := freed s1 @ avail s\<rparr>"
    from assms(4) have d: "distinct (addrs (map Some (avail s)))"
      by (simp add: fresh_tape_def addrs_def concat_map_singleton comp_def)
    have ad: "addrs (map Some (avail s)) = avail s"
      by (induction "avail s") (simp_all add: addrs_def comp_def)
    from lv1 tk have "\<forall>a \<in> set (addrs (map Some (avail s))). heap s1 a \<noteq> None"
      unfolding ad by (auto simp: list_all_iff live_def)
    from delete_all_ok [OF d this] have del: "delete_all (map Some (avail s)) s1 = Inr ((), ?s')"
      unfolding ad .
    from t short tk have t': "transform_new first last' [] s = (Some Thrown, map Some (avail s), s1)"
      by simp
    from t' del nlt have "DeepCopyOfRange first last' s = Inl (Thrown, ?s')"
      by (simp add: DeepCopyOfRange_def container_wrapper_dtor_def container_wrapper_def)
    moreover have "heap ?s' = heap s"
    proof
      fix a
      from assms(4) have "a \<in> set (avail s) \<Longrightarrow> heap s a = None"
        by (auto simp: fresh_tape_def list_all_iff)
      with fr tk show "heap ?s' a = heap s a" by auto
    qed
    moreover from del have "container_wrapper_dtor (\<lambda>c. map Some (avail s)) (container_wrapper ()) s1 =
        Inr ((), ?s')"
      by (simp add: container_wrapper_dtor_def container_wrapper_def)
    ultimately show ?thesis using t' lv1 tk k by auto
  qed
  have ok: "\<exists>s'. DeepCopyOfRange first last' s = Inr (map Some (take ?n (avail s)), s') \<and>
                container_wrapper_dtor (\<lambda>c. map Some (take ?n (avail s)))
                    (release_container (container_wrapper ())) s' = Inr ((), s') \<and>
                list_all (live s') (map Some (take ?n (avail s))) \<and>
                freed s' = freed s \<and> slots s' = slots s"
    if enough: "?n \<le> length (avail s)"
  proof -
    from t enough nlt have "DeepCopyOfRange first last' s = Inr (map Some (take ?n (avail s)), s1)"
      by (simp add: DeepCopyOfRange_def container_wrapper_dtor_def container_wrapper_def
                    release_container_def)
    moreover have "container_wrapper_dtor (\<lambda>c. map Some (take ?n (avail s)))
        (release_container (container_wrapper ())) s1 = Inr ((), s1)"
      by (simp add: container_wrapper_dtor_def container_wrapper_def release_container_def)
    ultimately show ?thesis using lv1 k by auto
  qed
  from fail ok show ?thesis by (simp add: DeepCopy_def)
qed


lemma example_mem_live: "list_all (live example_mem) (slots example_mem)"
  by (simp add: example_mem_def live_def)

lemma example_mem_fresh: "fresh_tape example_mem"
  by (simp add: example_mem_def fresh_tape_def)

theorem deep_copy_guard_witness:
  "(0::nat) \<le> 8 \<and> 8 \<le> length (slots (example_mem\<lparr>avail := [10, 11]\<rparr>)) \<and>
   list_all (live (example_mem\<lparr>avail := [10, 11]\<rparr>)) (slice 0 8 (example_mem\<lparr>avail := [10, 11]\<rparr>)) \<and>
   fresh_tape (example_mem\<lparr>avail := [10, 11]\<rparr>) \<and>
   (\<exists>s1 s'. transform_new 0 8 [] (example_mem\<lparr>avail := [10, 11]\<rparr>) = (Some Thrown, [Some 10, Some 11], s1) \<and>
      live s1 (Some 10) \<and> live s1 (Some 11) \<and>
      container_wrapper_dtor (\<lambda>c. [Some 10, Some 11]) (container_wrapper ()) s1 = Inr ((), s') \<and>
      DeepCopyOfRange 0 8 (example_mem\<lparr>avail := [10, 11]\<rparr>) = Inl (Thrown, s') \<and>
      freed s' = [10, 11] \<and> heap s' = heap example_mem \<and> slots s' = slots example_mem)"
proof -
  let ?s = "example_mem\<lparr>avail := [10, 11]\<rparr>"
  have h1: "(0::nat) \<le> 8" by simp
  have h2: "8 \<le> length (slots ?s)" by (simp add: example_mem_def)
  have h3: "list_all (live ?s) (slice 0 8 ?s)"
    by (simp add: example_mem_def live_def slice_def)
  have h4: "fresh_tape ?s" by (simp add: example_mem_def fresh_tape_def)
  have short: "length (avail ?s) < 8 - 0" by simp
  from deep_copy_guard [OF h1 h2 h3 h4] short h2 h3 h4 show ?thesis
    by (simp add: example_mem_def)
qed

text \<open>
  C6. For a container of live pointers and an allocator with enough fresh addresses,
  \<^verbatim>\<open>DeepCopy\<close> returns a container of the same length; the pointee at each position
  equals the source's pointee at that position (which the call did not change); every
  pointer of the result is live, differs from every pointer of the source, and no two
  pointers of the result are equal.
\<close>

theorem DeepCopy_pointwise_equal_fresh_pointers:
  fixes s :: "'v mem"
  assumes "list_all (live s) (slots s)" and "fresh_tape s"
    and "length (slots s) \<le> length (avail s)"
  shows "\<exists>r s'. DeepCopy s = Inr (r, s') \<and>
           length r = length (slots s) \<and>
           slots s' = slots s \<and>
           map (pointee s') r = map (pointee s') (slots s') \<and>
           map (pointee s') (slots s') = map (pointee s) (slots s) \<and>
           list_all (live s') r \<and>
           set r \<inter> set (slots s) = {} \<and>
           distinct r"
proof -
  let ?n = "length (slots s)"
  let ?r = "map Some (take ?n (avail s))"
  have n: "?n = 0 + ?n" by simp
  from assms(1) have lv: "list_all (live s) (slice 0 ?n s)" by (simp add: slice_all)
  from transform_new_fresh [OF n le_refl lv assms(2), of "[]"] assms(3) obtain s1 where
    t: "transform_new 0 ?n [] s = (None, ?r, s1)"
    and k: "slots s1 = slots s" "freed s1 = freed s"
    and fr: "\<forall>a. a \<notin> set (take ?n (avail s)) \<longrightarrow> heap s1 a = heap s a"
    and m: "map (heap s1) (take ?n (avail s)) = map (pointee s) (slots s)"
    by (auto simp: slice_all)
  from t have dc: "DeepCopy s = Inr (?r, s1)"
    by (simp add: DeepCopy_def DeepCopyOfRange_def container_wrapper_dtor_def
                  container_wrapper_def release_container_def)
  have fresh: "heap s a = None" if "a \<in> set (take ?n (avail s))" for a
    using that assms(2) by (auto simp: fresh_tape_def list_all_iff dest: in_set_takeD)
  have src: "pointee s1 p = pointee s p" if "p \<in> set (slots s)" for p
  proof -
    from that assms(1) have "live s p" by (simp add: list_all_iff)
    then obtain f x where p: "p = Some f" "heap s f = Some x" by (auto dest: live_Some)
    with fresh have "f \<notin> set (take ?n (avail s))" by auto
    with fr p show ?thesis by simp
  qed
  then have same: "map (pointee s1) (slots s) = map (pointee s) (slots s)" by simp
  from m have eq: "map (pointee s1) ?r = map (pointee s) (slots s)" by (simp add: comp_def)
  from assms(1) have "\<forall>v \<in> set (map (pointee s) (slots s)). v \<noteq> None"
    by (auto simp: list_all_iff live_def)
  with eq have "\<forall>v \<in> set (map (pointee s1) ?r). v \<noteq> None" by simp
  then have lv1: "list_all (live s1) ?r" by (auto simp: list_all_iff live_def)
  have disj: "set ?r \<inter> set (slots s) = {}"
  proof -
    have False if "p \<in> set ?r" "p \<in> set (slots s)" for p
    proof -
      from that(1) obtain a where a: "p = Some a" "a \<in> set (take ?n (avail s))" by auto
      from that(2) assms(1) have "live s p" by (simp add: list_all_iff)
      with a fresh show False by (auto simp: live_def)
    qed
    then show ?thesis by auto
  qed
  from assms(2) have "distinct ?r" by (simp add: fresh_tape_def distinct_map)
  with dc assms(3) k eq same lv1 disj show ?thesis by simp
qed

theorem DeepCopy_witness:
  "list_all (live example_mem) (slots example_mem) \<and> fresh_tape example_mem \<and>
   length (slots example_mem) \<le> length (avail example_mem) \<and>
   (\<exists>s'. DeepCopy example_mem =
            Inr ([Some 10, Some 11, Some 12, Some 13, Some 14, Some 15, Some 16, Some 17], s') \<and>
      map (pointee s') [Some 10, Some 11, Some 12, Some 13, Some 14, Some 15, Some 16, Some 17]
        = [Some 1, Some 2, Some 3, Some 4, Some 0, Some 0, Some 0, Some 0])"
proof -
  have h3: "length (slots example_mem) \<le> length (avail example_mem)"
    by (simp add: example_mem_def)
  from DeepCopy_pointwise_equal_fresh_pointers [OF example_mem_live example_mem_fresh h3]
  obtain r s' where d: "DeepCopy example_mem = Inr (r, s')"
    and e: "map (pointee s') r = map (pointee s') (slots s')"
           "map (pointee s') (slots s') = map (pointee example_mem) (slots example_mem)"
    by blast
  have "outcome (DeepCopy example_mem)
          = Inr [Some 10, Some 11, Some 12, Some 13, Some 14, Some 15, Some 16, Some 17]"
    by code_simp
  with d have r: "r = [Some 10, Some 11, Some 12, Some 13, Some 14, Some 15, Some 16, Some 17]"
    by (simp add: outcome_def)
  have "map (pointee example_mem) (slots example_mem)
          = [Some 1, Some 2, Some 3, Some 4, Some 0, Some 0, Some 0, Some 0]"
    by (simp add: example_mem_def)
  with d e r example_mem_live example_mem_fresh h3 show ?thesis by auto
qed

section \<open>\<^verbatim>\<open>Remove\<close> and \<^verbatim>\<open>RemoveIf\<close>\<close>

lemma slice_update_before:
  "slots s1 = (slots s)[k := q] \<Longrightarrow> k < first \<Longrightarrow> slice first last' s1 = slice first last' s"
  by (simp add: slice_def)

lemma slice_nth:
  "first \<le> j \<Longrightarrow> j < last' \<Longrightarrow> last' \<le> length (slots s) \<Longrightarrow>
   slice first last' s ! (j - first) = slots s ! j"
  by (simp add: slice_def)

lemma slice_mem:
  "first \<le> j \<Longrightarrow> j < last' \<Longrightarrow> last' \<le> length (slots s) \<Longrightarrow>
   slots s ! j \<in> set (slice first last' s)"
  using slice_nth [of first j last' s] length_slice [of last' s first]
  by (metis diff_less_mono nth_mem)

lemma pointee_slots_upd [simp]: "pointee (s\<lparr>slots := xs\<rparr>) p = pointee s p"
  by (cases p) (simp_all add: pointee_def)

lemma sat_slots_upd [simp]: "sat (s\<lparr>slots := xs\<rparr>) pred p = sat s pred p"
  by (simp add: sat_def)

lemma live_slots_upd [simp]: "live (s\<lparr>slots := xs\<rparr>) p = live s p"
  by (simp add: live_def)

lemma sat_Some: "heap s a = Some x \<Longrightarrow> sat s pred (Some a) = pred x"
  by (simp add: sat_def)

lemma sat_heap_cong: "pointee s1 q = pointee s q \<Longrightarrow> sat s1 pred q = sat s pred q"
  by (simp add: sat_def)

lemma RemoveIf_body_keep:
  "first < length (slots s) \<Longrightarrow> result \<le> first \<Longrightarrow> slots s ! first = Some a \<Longrightarrow>
   heap s a = Some x \<Longrightarrow> \<not> pred x \<Longrightarrow>
   RemoveIf_body first result pred s = Inr (Suc result, s\<lparr>slots := (slots s)[result := Some a]\<rparr>)"
  by (simp add: RemoveIf_body_def bnd_def ret_def read_slot_def deref_def write_slot_def)

lemma RemoveIf_body_drop:
  "first < length (slots s) \<Longrightarrow> slots s ! first = Some a \<Longrightarrow>
   heap s a = Some x \<Longrightarrow> pred x \<Longrightarrow>
   RemoveIf_body first result pred s =
     Inr (result, s\<lparr>slots := (slots s)[first := None], heap := (heap s)(a := None),
                    freed := freed s @ [a]\<rparr>)"
  by (simp add: RemoveIf_body_def bnd_def ret_def read_slot_def deref_def write_slot_def
                delete_ptr_def)

lemma RemoveIf_loop_ok:
  "last' = first + n \<Longrightarrow> last' \<le> length (slots s) \<Longrightarrow> result \<le> first \<Longrightarrow>
   list_all (live s) (slice first last' s) \<Longrightarrow> distinct (slice first last' s) \<Longrightarrow>
   \<exists>s'. RemoveIf_loop first last' result v pred s
          = Inr (result + length (survivors first last' pred s), s') \<and>
        length (slots s') = length (slots s) \<and>
        slice result (result + length (survivors first last' pred s)) s'
          = survivors first last' pred s \<and>
        (\<forall>j < length (slots s).
           \<not> (result \<le> j \<and> j < result + length (survivors first last' pred s)) \<longrightarrow>
           slots s' ! j = (if first \<le> j \<and> j < last' \<and> sat s pred (slots s ! j) then None
                           else slots s ! j)) \<and>
        freed s' = freed s @ addrs (removed first last' pred s) \<and>
        (\<forall>a. heap s' a = (if a \<in> set (addrs (removed first last' pred s)) then None
                           else heap s a)) \<and>
        avail s' = avail s"
proof (induction n arbitrary: first result s)
  case 0
  then show ?case
    by (auto simp: RemoveIf_loop.simps survivors_def removed_def)
next
  case (Suc n)
  let ?p = "slots s ! first"
  let ?rest = "slice (Suc first) last' s"
  from Suc.prems have lt: "first < last'" and ne: "first \<noteq> last'" and fl: "first < length (slots s)"
    and rl: "result < length (slots s)"
    by auto
  from lt Suc.prems have sl: "slice first last' s = ?p # ?rest"
    by (simp add: slice_Cons)
  with Suc.prems have "live s ?p" and lv: "list_all (live s) ?rest"
    and pn: "?p \<notin> set ?rest" and dr: "distinct ?rest" by simp_all
  then obtain a x where a: "?p = Some a" and x: "heap s a = Some x" by (auto dest: live_Some)
  have 1: "last' = Suc first + n" using Suc.prems by simp
  have len_surv: "length (survivors (Suc first) last' pred s) \<le> n"
    using Suc.prems 1 by (simp add: survivors_def slice_def le_trans [OF length_filter_le])
  show ?case
  proof (cases "pred x")
    case False
    let ?s1 = "s\<lparr>slots := (slots s)[result := Some a]\<rparr>"
    let ?K = "survivors (Suc first) last' pred s"
    from False a x have b: "RemoveIf_body first result pred s = Inr (Suc result, ?s1)"
      using fl Suc.prems by (simp add: RemoveIf_body_keep)
    have sl1: "slice (Suc first) last' ?s1 = ?rest"
      using Suc.prems by (simp add: slice_update_before [of _ s result "Some a"])
    have sat1: "sat ?s1 pred = sat s pred" by (simp add: fun_eq_iff)
    have K1: "survivors (Suc first) last' pred ?s1 = ?K"
      by (simp add: survivors_def sl1 sat1)
    have R1: "removed (Suc first) last' pred ?s1 = removed (Suc first) last' pred s"
      by (simp add: removed_def sl1 sat1)
    have 2: "last' \<le> length (slots ?s1)" using Suc.prems by simp
    have 3: "Suc result \<le> Suc first" using Suc.prems by simp
    have 4: "list_all (live ?s1) (slice (Suc first) last' ?s1)"
      unfolding sl1 using lv by (simp add: list_all_iff)
    have 5: "distinct (slice (Suc first) last' ?s1)" unfolding sl1 by (rule dr)
    from Suc.IH [OF 1 2 3 4 5] obtain s' where
      r: "RemoveIf_loop (Suc first) last' (Suc result) v pred ?s1
            = Inr (Suc result + length ?K, s')" and
      ln: "length (slots s') = length (slots s)" and
      pre: "slice (Suc result) (Suc result + length ?K) s' = ?K" and
      fr: "\<forall>j < length (slots s).
             \<not> (Suc result \<le> j \<and> j < Suc result + length ?K) \<longrightarrow>
             slots s' ! j = (if Suc first \<le> j \<and> j < last' \<and> sat s pred (slots ?s1 ! j) then None
                             else slots ?s1 ! j)" and
      fd: "freed s' = freed s @ addrs (removed (Suc first) last' pred s)" and
      hp: "\<forall>b. heap s' b = (if b \<in> set (addrs (removed (Suc first) last' pred s)) then None
                            else heap s b)" and
      av: "avail s' = avail s"
      unfolding K1 R1 sat1 by auto
    from False a x have sv: "survivors first last' pred s = ?p # ?K"
      by (simp add: survivors_def sl sat_Some)
    from False a x have rm: "removed first last' pred s = removed (Suc first) last' pred s"
      by (simp add: removed_def sl sat_Some)
    from fr rl Suc.prems have at_r: "slots s' ! result = ?p"
      using a by simp
    have fits: "result + length (survivors first last' pred s) \<le> length (slots s')"
      using len_surv Suc.prems sv ln by simp
    have "slice result (result + length (survivors first last' pred s)) s'
            = slots s' ! result # slice (Suc result) (result + length (survivors first last' pred s)) s'"
      using fits sv by (intro slice_Cons) simp_all
    with at_r pre sv have pre': "slice result (result + length (survivors first last' pred s)) s'
            = survivors first last' pred s" by simp
    have fr': "\<forall>j < length (slots s).
           \<not> (result \<le> j \<and> j < result + length (survivors first last' pred s)) \<longrightarrow>
           slots s' ! j = (if first \<le> j \<and> j < last' \<and> sat s pred (slots s ! j) then None
                           else slots s ! j)"
    proof (intro allI impI)
      fix j assume j: "j < length (slots s)"
        and out: "\<not> (result \<le> j \<and> j < result + length (survivors first last' pred s))"
      from out sv have o1: "\<not> (Suc result \<le> j \<and> j < Suc result + length ?K)" and jr: "j \<noteq> result"
        by auto
      from jr have same: "slots ?s1 ! j = slots s ! j" by simp
      from fr j o1 have e: "slots s' ! j =
          (if Suc first \<le> j \<and> j < last' \<and> sat s pred (slots ?s1 ! j) then None else slots ?s1 ! j)"
        by blast
      show "slots s' ! j = (if first \<le> j \<and> j < last' \<and> sat s pred (slots s ! j) then None
                           else slots s ! j)"
      proof -
        have cond: "(Suc first \<le> j \<and> j < last' \<and> sat s pred (slots s ! j))
                    = (first \<le> j \<and> j < last' \<and> sat s pred (slots s ! j))"
        proof (cases "j = first")
          case True
          with a x \<open>\<not> pred x\<close> have "\<not> sat s pred (slots s ! j)" by (simp add: sat_Some)
          then show ?thesis by simp
        next
          case False
          then show ?thesis by auto
        qed
        from e show ?thesis unfolding same cond .
      qed
    qed
    from r b ne have "RemoveIf_loop first last' result v pred s
          = Inr (result + length (survivors first last' pred s), s')"
      by (simp add: RemoveIf_loop.simps [of first] sv)
    with ln pre' fr' fd hp av rm show ?thesis by simp
  next
    case True
    let ?s1 = "s\<lparr>slots := (slots s)[first := None], heap := (heap s)(a := None),
                    freed := freed s @ [a]\<rparr>"
    let ?K = "survivors (Suc first) last' pred s"
    let ?R = "removed (Suc first) last' pred s"
    from True a x have b: "RemoveIf_body first result pred s = Inr (result, ?s1)"
      using fl by (simp add: RemoveIf_body_drop)
    have sl1: "slice (Suc first) last' ?s1 = ?rest"
      by (simp add: slice_update_before [of _ s first None])
    have pt1: "pointee ?s1 q = pointee s q" if "q \<in> set ?rest" for q
    proof (cases q)
      case None
      then show ?thesis by (simp add: pointee_def)
    next
      case (Some b)
      with that pn a have "b \<noteq> a" by auto
      with Some show ?thesis by (simp add: pointee_def)
    qed
    have K1: "survivors (Suc first) last' pred ?s1 = ?K"
      unfolding survivors_def sl1 by (rule filter_cong) (auto simp: sat_heap_cong [OF pt1])
    have R1: "removed (Suc first) last' pred ?s1 = ?R"
      unfolding removed_def sl1 by (rule filter_cong) (auto simp: sat_heap_cong [OF pt1])
    have 2: "last' \<le> length (slots ?s1)" using Suc.prems by simp
    have 3: "result \<le> Suc first" using Suc.prems by simp
    have 4: "list_all (live ?s1) (slice (Suc first) last' ?s1)"
      unfolding sl1 using lv pt1 by (simp add: live_def list_all_iff)
    have 5: "distinct (slice (Suc first) last' ?s1)" unfolding sl1 by (rule dr)
    from Suc.IH [OF 1 2 3 4 5] obtain s' where
      r: "RemoveIf_loop (Suc first) last' result v pred ?s1 = Inr (result + length ?K, s')" and
      ln: "length (slots s') = length (slots s)" and
      pre: "slice result (result + length ?K) s' = ?K" and
      fr: "\<forall>j < length (slots s).
             \<not> (result \<le> j \<and> j < result + length ?K) \<longrightarrow>
             slots s' ! j = (if Suc first \<le> j \<and> j < last' \<and> sat ?s1 pred (slots ?s1 ! j) then None
                             else slots ?s1 ! j)" and
      fd: "freed s' = freed ?s1 @ addrs ?R" and
      hp: "\<forall>b. heap s' b = (if b \<in> set (addrs ?R) then None else heap ?s1 b)" and
      av: "avail s' = avail s"
      unfolding K1 R1 by auto
    from True a x have sv: "survivors first last' pred s = ?K"
      by (simp add: survivors_def sl sat_Some)
    from True a x have rm: "removed first last' pred s = ?p # ?R"
      by (simp add: removed_def sl sat_Some)
    have fr': "\<forall>j < length (slots s).
           \<not> (result \<le> j \<and> j < result + length (survivors first last' pred s)) \<longrightarrow>
           slots s' ! j = (if first \<le> j \<and> j < last' \<and> sat s pred (slots s ! j) then None
                           else slots s ! j)"
    proof (intro allI impI)
      fix j assume j: "j < length (slots s)"
        and out: "\<not> (result \<le> j \<and> j < result + length (survivors first last' pred s))"
      from out sv have o1: "\<not> (result \<le> j \<and> j < result + length ?K)" by simp
      show "slots s' ! j = (if first \<le> j \<and> j < last' \<and> sat s pred (slots s ! j) then None
                           else slots s ! j)"
      proof (cases "j = first")
        case True
        with fr j o1 fl lt a x \<open>pred x\<close> show ?thesis by (simp add: sat_Some)
      next
        case False
        then have same: "slots ?s1 ! j = slots s ! j" by simp
        from fr j o1 have e: "slots s' ! j =
            (if Suc first \<le> j \<and> j < last' \<and> sat ?s1 pred (slots ?s1 ! j) then None
             else slots ?s1 ! j)"
          by blast
        have cond: "(Suc first \<le> j \<and> j < last' \<and> sat ?s1 pred (slots s ! j))
                    = (first \<le> j \<and> j < last' \<and> sat s pred (slots s ! j))"
        proof (cases "Suc first \<le> j \<and> j < last'")
          case True
          then have "sat ?s1 pred (slots s ! j) = sat s pred (slots s ! j)"
            using Suc.prems by (intro sat_heap_cong pt1 slice_mem) simp_all
          with True show ?thesis by auto
        next
          case F2: False
          with False show ?thesis by auto
        qed
        from e show ?thesis unfolding same cond .
      qed
    qed
    have hp': "\<forall>b. heap s' b = (if b \<in> set (addrs (removed first last' pred s)) then None
                            else heap s b)"
      using hp rm a by auto
    from r b ne have "RemoveIf_loop first last' result v pred s
          = Inr (result + length (survivors first last' pred s), s')"
      by (simp add: RemoveIf_loop.simps [of first] sv)
    with ln pre fr' fd hp' av rm sv a show ?thesis by simp
  qed
qed


lemma read_ref_referent: "referent s vref = Some v \<Longrightarrow> read_ref vref s = Inr (v, s)"
  by (cases vref) (simp_all add: read_ref_def referent_def deref_def)

lemma Remove_body_eq:
  "referent s vref = Some v \<Longrightarrow>
   Remove_body first result vref s = RemoveIf_body first result (\<lambda>x. x = v) s"
  by (simp add: Remove_body_def RemoveIf_body_def bnd_def read_slot_def deref_def
                read_ref_referent split: option.splits)

lemma RemoveIf_body_frame:
  "RemoveIf_body first result pred s = Inr (r, s1) \<Longrightarrow> result \<le> first \<Longrightarrow>
   r \<le> Suc first \<and> length (slots s1) = length (slots s) \<and>
   (\<forall>j. first < j \<longrightarrow> slots s1 ! j = slots s ! j) \<and>
   (\<forall>b. slots s ! first \<noteq> Some b \<longrightarrow> heap s1 b = heap s b)"
  by (auto simp: RemoveIf_body_def bnd_def ret_def read_slot_def deref_def write_slot_def
                 delete_ptr_def split: if_splits option.splits)

lemma Remove_loop_eq:
  "last' = first + n \<Longrightarrow> last' \<le> length (slots s) \<Longrightarrow> result \<le> first \<Longrightarrow>
   referent s vref = Some v \<Longrightarrow> clear_of vref (slice first last' s) \<Longrightarrow>
   Remove_loop first last' result vref s = RemoveIf_loop first last' result () (\<lambda>x. x = v) s"
proof (induction n arbitrary: first result s)
  case 0
  then show ?case by (simp add: Remove_loop.simps RemoveIf_loop.simps)
next
  case (Suc n)
  from Suc.prems have ne: "first \<noteq> last'" and lt: "first < last'" by simp_all
  note be = Remove_body_eq [OF Suc.prems(4), of first result]
  show ?case
  proof (cases "RemoveIf_body first result (\<lambda>x. x = v) s")
    case (Inl x)
    with ne be show ?thesis
      by (simp add: Remove_loop.simps [of first] RemoveIf_loop.simps [of first])
  next
    case (Inr rs)
    obtain r s1 where rs: "rs = (r, s1)" by (cases rs)
    from RemoveIf_body_frame [OF Inr [unfolded rs] Suc.prems(3)] have
      r: "r \<le> Suc first" and ln: "length (slots s1) = length (slots s)" and
      sl: "\<And>j. first < j \<Longrightarrow> slots s1 ! j = slots s ! j" and
      hp: "\<And>b. slots s ! first \<noteq> Some b \<Longrightarrow> heap s1 b = heap s b"
      by simp_all
    from lt Suc.prems(2) have cons: "slice first last' s = slots s ! first # slice (Suc first) last' s"
      by (rule slice_Cons)
    have rest: "slice (Suc first) last' s1 = slice (Suc first) last' s"
      using ln Suc.prems(2) by (rule slice_eq_frame) (simp add: sl)
    have 1: "last' = Suc first + n" using Suc.prems(1) by simp
    have 2: "last' \<le> length (slots s1)" using Suc.prems(2) ln by simp
    have 4: "referent s1 vref = Some v"
    proof (cases vref)
      case (Outside x)
      with Suc.prems(4) show ?thesis by (simp add: referent_def)
    next
      case (Inside a)
      with Suc.prems(5) cons have "slots s ! first \<noteq> Some a" by (auto simp: clear_of_def)
      then have "heap s1 a = heap s a" by (rule hp)
      with Inside Suc.prems(4) show ?thesis by (simp add: referent_def)
    qed
    have 5: "clear_of vref (slice (Suc first) last' s1)"
      unfolding rest using Suc.prems(5) cons by (auto simp: clear_of_def split: cref.splits)
    from Suc.IH [OF 1 2 r 4 5] ne be Inr rs show ?thesis
      by (simp add: Remove_loop.simps [of first] RemoveIf_loop.simps [of first])
  qed
qed

lemma Remove_eq:
  "first \<le> last' \<Longrightarrow> last' \<le> length (slots s) \<Longrightarrow> referent s vref = Some v \<Longrightarrow>
   clear_of vref (slice first last' s) \<Longrightarrow>
   Remove first last' vref s = RemoveIf first last' () (\<lambda>x. x = v) s"
  unfolding Remove_def RemoveIf_def by (rule Remove_loop_eq [of _ _ "last' - first"]) simp_all

lemma sat_eq_iff: "sat s (\<lambda>x. x = v) p = (pointee s p = Some v)"
  by (auto simp: sat_def split: option.splits)

lemma length_survivors: "last' \<le> length (slots s) \<Longrightarrow> length (survivors first last' pred s) \<le> last' - first"
  by (simp add: survivors_def slice_def le_trans [OF length_filter_le])

lemma RemoveIf_ok:
  assumes "owned first last' s"
  shows "\<exists>s'. RemoveIf first last' v pred s
          = Inr (first + length (survivors first last' pred s), s') \<and>
        length (slots s') = length (slots s) \<and>
        slice first (first + length (survivors first last' pred s)) s'
          = survivors first last' pred s \<and>
        (\<forall>j < length (slots s).
           \<not> (first \<le> j \<and> j < first + length (survivors first last' pred s)) \<longrightarrow>
           slots s' ! j = (if first \<le> j \<and> j < last' \<and> sat s pred (slots s ! j) then None
                           else slots s ! j)) \<and>
        freed s' = freed s @ addrs (removed first last' pred s) \<and>
        (\<forall>a. heap s' a = (if a \<in> set (addrs (removed first last' pred s)) then None
                           else heap s a)) \<and>
        avail s' = avail s"
proof -
  from assms have "last' = first + (last' - first)" by (simp add: owned_def)
  from RemoveIf_loop_ok [OF this, of s first v pred] assms show ?thesis
    by (simp add: owned_def RemoveIf_def)
qed

lemma distinct_addrs: "distinct ps \<Longrightarrow> distinct (addrs ps)"
proof (induction ps)
  case Nil
  then show ?case by simp
next
  case (Cons p ps)
  have mem: "a \<in> set (addrs qs) \<Longrightarrow> Some a \<in> set qs" for a and qs :: "ptr list"
    by (auto simp: addrs_def split: option.splits)
  from Cons mem show ?case by (cases p) auto
qed

lemma set_addrs: "set (addrs ps) = {a. Some a \<in> set ps}"
  by (auto simp: addrs_def split: option.splits)


lemma Remove_body_removes:
  "Remove_body i result u s0 = Inr (r1, s1) \<Longrightarrow> slots s0 ! i = Some a \<Longrightarrow> heap s0 a = Some x \<Longrightarrow>
   referent s0 u = Some x \<Longrightarrow>
   r1 = result \<and> slots s1 ! i = None \<and> heap s1 a = None \<and> freed s1 = freed s0 @ [a]"
  by (auto simp: Remove_body_def bnd_def ret_def read_slot_def deref_def write_slot_def
                 delete_ptr_def read_ref_referent split: if_splits)

text \<open>
  C3, amended. \<^verbatim>\<open>Remove(first, last, value)\<close> over an owned range, where the reference
  \<^verbatim>\<open>value\<close> is bound to an object equal to \<open>v\<close> that is clear of the range (an object
  outside the heap, or a heap object that no pointer of the range points to), returns
  the iterator \<open>r\<close>, the start advanced by the number of elements whose pointee is not
  \<open>v\<close>. The slots \<open>[first, r)\<close> then hold exactly the pointers whose pointee is not
  \<open>v\<close>, in their original order, and these pointees are unchanged. The removed
  pointers (pointee equal to \<open>v\<close>) are deleted once each, in order: the log grows by
  exactly their pairwise different addresses, their objects are dead and every other
  object is as before, the one \<^verbatim>\<open>value\<close> is bound to among them. In every iteration
  that removes (the element at \<open>i\<close> points to an object equal to the one the reference
  is bound to, whatever the reference) the pointer is deleted, slot \<open>i\<close> holds the null
  pointer when the body ends, and \<^verbatim>\<open>result\<close> has not moved.
\<close>

theorem Remove_prefix_and_deleted:
  fixes s :: "'v mem"
  assumes "owned first last' s"
    and "referent s vref = Some v" and "clear_of vref (slice first last' s)"
  shows "(\<exists>r s'. Remove first last' vref s = Inr (r, s') \<and>
            r = first + length (filter (\<lambda>p. pointee s p \<noteq> Some v) (slice first last' s)) \<and>
            r \<le> last' \<and> length (slots s') = length (slots s) \<and>
            slice first r s' = filter (\<lambda>p. pointee s p \<noteq> Some v) (slice first last' s) \<and>
            map (pointee s') (slice first r s')
              = filter (\<lambda>y. y \<noteq> Some v) (map (pointee s) (slice first last' s)) \<and>
            freed s' = freed s @ addrs (filter (\<lambda>p. pointee s p = Some v) (slice first last' s)) \<and>
            distinct (addrs (filter (\<lambda>p. pointee s p = Some v) (slice first last' s))) \<and>
            (\<forall>a. heap s' a =
                   (if Some a \<in> set (filter (\<lambda>p. pointee s p = Some v) (slice first last' s))
                    then None else heap s a)) \<and>
            referent s' vref = Some v) \<and>
         (\<forall>i result u s0 r1 s1 a x.
            Remove_body i result u (s0 :: 'v mem) = Inr (r1, s1) \<longrightarrow>
            slots s0 ! i = Some a \<longrightarrow> heap s0 a = Some x \<longrightarrow> referent s0 u = Some x \<longrightarrow>
            r1 = result \<and> slots s1 ! i = None \<and> heap s1 a = None \<and> freed s1 = freed s0 @ [a])"
proof -
  let ?src = "slice first last' s"
  let ?K = "filter (\<lambda>p. pointee s p \<noteq> Some v) ?src"
  let ?R = "filter (\<lambda>p. pointee s p = Some v) ?src"
  have K: "survivors first last' (\<lambda>x. x = v) s = ?K"
    by (simp add: survivors_def sat_eq_iff)
  have R: "removed first last' (\<lambda>x. x = v) s = ?R"
    unfolding removed_def by (rule filter_cong) (simp_all add: sat_eq_iff)
  from assms(1) have fl: "first \<le> last'" "last' \<le> length (slots s)" by (simp_all add: owned_def)
  note eq = Remove_eq [OF fl assms(2,3)]
  from RemoveIf_ok [OF assms(1), of "()" "\<lambda>x. x = v"] obtain s' where
    r: "Remove first last' vref s = Inr (first + length ?K, s')" and
    ln: "length (slots s') = length (slots s)" and
    pre: "slice first (first + length ?K) s' = ?K" and
    fd: "freed s' = freed s @ addrs ?R" and
    hp: "\<forall>a. heap s' a = (if a \<in> set (addrs ?R) then None else heap s a)"
    unfolding K R eq by auto
  have "length ?K \<le> last' - first"
    using length_survivors [OF fl(2), of first "\<lambda>x. x = v"] unfolding K .
  with fl(1) have le: "first + length ?K \<le> last'" by linarith
  from assms(1) have "distinct ?R" by (simp add: owned_def)
  then have dR: "distinct (addrs ?R)" by (rule distinct_addrs)
  have hp': "\<forall>a. heap s' a = (if Some a \<in> set ?R then None else heap s a)"
    using hp by (simp add: set_addrs)
  have "pointee s' p = pointee s p" if "p \<in> set ?K" for p
  proof (cases p)
    case None
    then show ?thesis by (simp add: pointee_def)
  next
    case (Some a)
    with that have "Some a \<notin> set ?R" by auto
    with hp' Some show ?thesis by simp
  qed
  then have "map (pointee s') ?K = map (pointee s) ?K" by simp
  also have "\<dots> = filter (\<lambda>y. y \<noteq> Some v) (map (pointee s) ?src)"
    by (simp add: filter_map comp_def)
  finally have vals: "map (pointee s') (slice first (first + length ?K) s')
      = filter (\<lambda>y. y \<noteq> Some v) (map (pointee s) ?src)"
    using pre by simp
  have ref: "referent s' vref = Some v"
  proof (cases vref)
    case (Outside x)
    with assms(2) show ?thesis by (simp add: referent_def)
  next
    case (Inside a)
    with assms(3) have "Some a \<notin> set ?R" by (simp add: clear_of_def)
    with hp' have "heap s' a = heap s a" by simp
    with Inside assms(2) show ?thesis by (simp add: referent_def)
  qed
  have A: "\<exists>r s'. Remove first last' vref s = Inr (r, s') \<and>
            r = first + length ?K \<and>
            r \<le> last' \<and> length (slots s') = length (slots s) \<and>
            slice first r s' = ?K \<and>
            map (pointee s') (slice first r s')
              = filter (\<lambda>y. y \<noteq> Some v) (map (pointee s) ?src) \<and>
            freed s' = freed s @ addrs ?R \<and>
            distinct (addrs ?R) \<and>
            (\<forall>a. heap s' a = (if Some a \<in> set ?R then None else heap s a)) \<and>
            referent s' vref = Some v"
  proof (intro exI conjI)
    show "Remove first last' vref s = Inr (first + length ?K, s')" by (rule r)
    show "first + length ?K = first + length ?K" ..
    show "first + length ?K \<le> last'" by (rule le)
    show "length (slots s') = length (slots s)" by (rule ln)
    show "slice first (first + length ?K) s' = ?K" by (rule pre)
    show "map (pointee s') (slice first (first + length ?K) s')
              = filter (\<lambda>y. y \<noteq> Some v) (map (pointee s) ?src)" by (rule vals)
    show "freed s' = freed s @ addrs ?R" by (rule fd)
    show "distinct (addrs ?R)" by (rule dR)
    show "\<forall>a. heap s' a = (if Some a \<in> set ?R then None else heap s a)" by (rule hp')
    show "referent s' vref = Some v" by (rule ref)
  qed
  have B: "\<forall>i result u s0 r1 s1 a x.
            Remove_body i result u (s0 :: 'v mem) = Inr (r1, s1) \<longrightarrow>
            slots s0 ! i = Some a \<longrightarrow> heap s0 a = Some x \<longrightarrow> referent s0 u = Some x \<longrightarrow>
            r1 = result \<and> slots s1 ! i = None \<and> heap s1 a = None \<and> freed s1 = freed s0 @ [a]"
    by (intro allI impI) (rule Remove_body_removes)
  from A B show ?thesis by (rule conjI)
qed

theorem Remove_witness:
  "(owned 1 3 example_twos \<and> referent example_twos (Inside 1) = Some 2 \<and>
    clear_of (Inside 1) (slice 1 3 example_twos)) \<and>
   (\<exists>s'. Remove 1 3 (Inside 1) example_twos = Inr (2, s') \<and>
      slice 1 2 s' = [Some 3] \<and>
      map (pointee s') (slice 1 2 s') = [Some 3] \<and>
      freed s' = [2] \<and> heap s' 2 = None \<and> referent s' (Inside 1) = Some 2)"
proof -
  have h: "owned 1 3 example_twos"
    by (simp add: owned_def example_twos_def slice_def live_def)
  have g: "referent example_twos (Inside 1) = Some 2"
    by (simp add: referent_def example_twos_def)
  have sl: "slice 1 3 example_twos = [Some 2, Some 3]"
    by (simp add: slice_def example_twos_def)
  have c: "clear_of (Inside 1) (slice 1 3 example_twos)"
    unfolding sl by (simp add: clear_of_def)
  have K: "filter (\<lambda>p. pointee example_twos p \<noteq> Some 2) [Some 2, Some 3] = [Some 3]"
    by (simp add: example_twos_def)
  have R: "filter (\<lambda>p. pointee example_twos p = Some 2) [Some 2, Some 3] = [Some 2]"
    by (simp add: example_twos_def)
  have V: "filter (\<lambda>y. y \<noteq> Some 2) (map (pointee example_twos) [Some 2, Some 3]) = [Some 3]"
    by (simp add: example_twos_def)
  have F: "freed example_twos = []" by (simp add: example_twos_def)
  from Remove_prefix_and_deleted [OF h g c, THEN conjunct1] obtain r s' where
    r: "Remove 1 3 (Inside 1) example_twos = Inr (r, s')" and
    r3: "r = 1 + length [Some (3::nat)]" and
    p: "slice 1 r s' = [Some 3]"
       "map (pointee s') (slice 1 r s') = [Some 3]" and
    f: "freed s' = freed example_twos @ addrs [Some 2]" and
    hp: "\<forall>a. heap s' a = (if Some a \<in> set [Some 2] then None else heap example_twos a)" and
    rf: "referent s' (Inside 1) = Some 2"
    unfolding sl K R V by (elim exE conjE)
  from r3 have r3': "r = 2" by simp
  from hp have h2: "heap s' 2 = None" by simp
  from f F have f': "freed s' = [2]" by simp
  show ?thesis
  proof (intro conjI exI)
    show "owned 1 3 example_twos" by (rule h)
    show "referent example_twos (Inside 1) = Some 2" by (rule g)
    show "clear_of (Inside 1) (slice 1 3 example_twos)" by (rule c)
    show "Remove 1 3 (Inside 1) example_twos = Inr (2, s')" using r unfolding r3' .
    show "slice 1 2 s' = [Some 3]" using p(1) unfolding r3' .
    show "map (pointee s') (slice 1 2 s') = [Some 3]" using p(2) unfolding r3' .
    show "freed s' = [2]" by (rule f')
    show "heap s' 2 = None" by (rule h2)
    show "referent s' (Inside 1) = Some 2" by (rule rf)
  qed
qed

text \<open>
  \<^verbatim>\<open>Remove\<close> with \<^verbatim>\<open>value\<close> bound to an element of the range. The slots own the objects
  2, 2, 3 and \<^verbatim>\<open>value\<close> is bound to the first of them, as in
  \<^verbatim>\<open>Remove(first, last, **first)\<close>. The first iteration deletes that object; the
  comparison of the second iteration reads it through the reference, a use after free,
  and no iterator is returned. With the value 2 held outside the heap the call returns
  the end 1 over the pointee 3.
\<close>

theorem Remove_value_bound_into_range:
  "owned 0 3 example_twos \<and>
   map (pointee example_twos) (slice 0 3 example_twos) = [Some 2, Some 2, Some 3] \<and>
   slots example_twos ! 0 = Some 1 \<and>
   referent example_twos (Inside 1) = Some 2 \<and>
   outcome (Remove 0 3 (Inside 1) example_twos) = Inl UseAfterFree \<and>
   dest_view 0 1 (Remove 0 3 (Outside 2) example_twos) = Some (1, [Some 3])"
  by code_simp

section \<open>\<^verbatim>\<open>Unique\<close>\<close>

lemma same_slots_upd [simp]: "same (s\<lparr>slots := xs\<rparr>) pred r p = same s pred r p"
  by (simp add: same_def split: option.splits)

lemma same_Some: "heap s a = Some x \<Longrightarrow> heap s b = Some y \<Longrightarrow> same s pred (Some a) (Some b) = pred x y"
  by (simp add: same_def sat_def)

lemma same_cong:
  "pointee s1 r = pointee s r \<Longrightarrow> pointee s1 p = pointee s p \<Longrightarrow> same s1 pred r p = same s pred r p"
  by (simp add: same_def sat_def split: option.splits)

lemma uniq_keep_cong:
  "(\<And>x y. x \<in> insert r (set ps) \<Longrightarrow> y \<in> set ps \<Longrightarrow> eq1 x y = eq2 x y) \<Longrightarrow>
   uniq_keep eq1 r ps = uniq_keep eq2 r ps"
  by (induction ps arbitrary: r) auto

lemma uniq_drop_cong:
  "(\<And>x y. x \<in> insert r (set ps) \<Longrightarrow> y \<in> set ps \<Longrightarrow> eq1 x y = eq2 x y) \<Longrightarrow>
   uniq_drop eq1 r ps = uniq_drop eq2 r ps"
  by (induction ps arbitrary: r) auto

lemma set_uniq_drop: "set (uniq_drop eq r ps) \<subseteq> set ps"
  by (induction ps arbitrary: r) auto

lemma set_uniq_keep: "set (uniq_keep eq r ps) \<subseteq> set ps"
  by (induction ps arbitrary: r) auto

lemma length_uniq_keep: "length (uniq_keep eq r ps) \<le> length ps"
  by (induction ps arbitrary: r) (auto simp: le_SucI)

lemma Unique_pred_body_keep:
  "Suc result < length (slots s) \<Longrightarrow> first < length (slots s) \<Longrightarrow>
   slots s ! result = Some a \<Longrightarrow> heap s a = Some x \<Longrightarrow>
   slots s ! first = Some b \<Longrightarrow> heap s b = Some y \<Longrightarrow> \<not> pred x y \<Longrightarrow>
   Unique_pred_body first result pred s =
     Inr (Suc result, s\<lparr>slots := (slots s)[Suc result := Some b]\<rparr>)"
  by (simp add: Unique_pred_body_def bnd_def ret_def read_slot_def deref_def write_slot_def)

lemma Unique_pred_body_drop:
  "result < length (slots s) \<Longrightarrow> first < length (slots s) \<Longrightarrow>
   slots s ! result = Some a \<Longrightarrow> heap s a = Some x \<Longrightarrow>
   slots s ! first = Some b \<Longrightarrow> heap s b = Some y \<Longrightarrow> pred x y \<Longrightarrow>
   Unique_pred_body first result pred s =
     Inr (result, s\<lparr>slots := (slots s)[first := None], heap := (heap s)(b := None),
                    freed := freed s @ [b]\<rparr>)"
  by (simp add: Unique_pred_body_def bnd_def ret_def read_slot_def deref_def write_slot_def
                delete_ptr_def)

lemma Unique_pred_loop_ok:
  "last' = Suc first + n \<Longrightarrow> last' \<le> length (slots s) \<Longrightarrow> result \<le> first \<Longrightarrow>
   live s (slots s ! result) \<Longrightarrow> slots s ! result \<notin> set (slice (Suc first) last' s) \<Longrightarrow>
   list_all (live s) (slice (Suc first) last' s) \<Longrightarrow> distinct (slice (Suc first) last' s) \<Longrightarrow>
   \<exists>s'. Unique_pred_loop first last' result pred s
          = Inr (Suc result + length (uniq_keep (same s pred) (slots s ! result) (slice (Suc first) last' s)), s') \<and>
        length (slots s') = length (slots s) \<and>
        slice (Suc result) (Suc result + length (uniq_keep (same s pred) (slots s ! result) (slice (Suc first) last' s))) s'
          = uniq_keep (same s pred) (slots s ! result) (slice (Suc first) last' s) \<and>
        (\<forall>j < length (slots s).
           \<not> (result < j \<and> j < Suc result + length (uniq_keep (same s pred) (slots s ! result) (slice (Suc first) last' s))) \<longrightarrow>
           slots s' ! j =
             (if first < j \<and> j < last' \<and>
                 slots s ! j \<in> set (uniq_drop (same s pred) (slots s ! result) (slice (Suc first) last' s))
              then None else slots s ! j)) \<and>
        freed s' = freed s @ addrs (uniq_drop (same s pred) (slots s ! result) (slice (Suc first) last' s)) \<and>
        (\<forall>a. heap s' a =
            (if a \<in> set (addrs (uniq_drop (same s pred) (slots s ! result) (slice (Suc first) last' s)))
             then None else heap s a)) \<and>
        avail s' = avail s"
proof (induction n arbitrary: first result s)
  case 0
  then show ?case by (auto simp: Unique_pred_loop.simps)
next
  case (Suc n)
  let ?r = "slots s ! result"
  let ?p = "slots s ! Suc first"
  let ?rest = "slice (Suc (Suc first)) last' s"
  let ?eq = "same s pred"
  from Suc.prems have lt: "Suc first < last'" and ne: "Suc first \<noteq> last'"
    and fl: "Suc first < length (slots s)" and rl: "Suc result < length (slots s)"
    by auto
  from lt Suc.prems have sl: "slice (Suc first) last' s = ?p # ?rest"
    by (simp add: slice_Cons)
  with Suc.prems have "live s ?p" and lv: "list_all (live s) ?rest"
    and pn: "?p \<notin> set ?rest" and dr: "distinct ?rest"
    and rp: "?r \<noteq> ?p" and rn: "?r \<notin> set ?rest" by auto
  then obtain b y where b: "?p = Some b" and y: "heap s b = Some y" by (auto dest: live_Some)
  from Suc.prems obtain a x where a: "?r = Some a" and x: "heap s a = Some x"
    by (auto dest: live_Some)
  from rp a b have ab: "a \<noteq> b" by auto
  have eqrp: "?eq ?r ?p = pred x y" using a b x y by (simp add: same_Some)
  have 1: "last' = Suc (Suc first) + n" using Suc.prems by simp
  show ?case
  proof (cases "pred x y")
    case False
    let ?s1 = "s\<lparr>slots := (slots s)[Suc result := Some b]\<rparr>"
    let ?K = "uniq_keep ?eq ?p ?rest"
    let ?D = "uniq_drop ?eq ?p ?rest"
    from False a b x y have bd: "Unique_pred_body (Suc first) result pred s = Inr (Suc result, ?s1)"
      using fl rl by (simp add: Unique_pred_body_keep)
    have sl1: "slice (Suc (Suc first)) last' ?s1 = ?rest"
      using Suc.prems by (simp add: slice_update_before [of _ s "Suc result" "Some b"])
    have eq1: "same ?s1 pred = ?eq" by (simp add: fun_eq_iff)
    have at1: "slots ?s1 ! Suc result = ?p" using rl b by simp
    have 2: "last' \<le> length (slots ?s1)" using Suc.prems by simp
    have 3: "Suc result \<le> Suc first" using Suc.prems by simp
    have 4: "live ?s1 (slots ?s1 ! Suc result)" unfolding at1 using \<open>live s ?p\<close> by simp
    have 5: "slots ?s1 ! Suc result \<notin> set (slice (Suc (Suc first)) last' ?s1)"
      unfolding at1 sl1 by (rule pn)
    have 6: "list_all (live ?s1) (slice (Suc (Suc first)) last' ?s1)"
      unfolding sl1 using lv by (simp add: list_all_iff)
    have 7: "distinct (slice (Suc (Suc first)) last' ?s1)" unfolding sl1 by (rule dr)
    from Suc.IH [OF 1 2 3 4 5 6 7] obtain s' where
      r: "Unique_pred_loop (Suc first) last' (Suc result) pred ?s1
            = Inr (Suc (Suc result) + length ?K, s')" and
      ln: "length (slots s') = length (slots s)" and
      pre: "slice (Suc (Suc result)) (Suc (Suc result) + length ?K) s' = ?K" and
      fr: "\<forall>j < length (slots s).
             \<not> (Suc result < j \<and> j < Suc (Suc result) + length ?K) \<longrightarrow>
             slots s' ! j = (if Suc first < j \<and> j < last' \<and> slots ?s1 ! j \<in> set ?D then None
                             else slots ?s1 ! j)" and
      fd: "freed s' = freed s @ addrs ?D" and
      hp: "\<forall>c. heap s' c = (if c \<in> set (addrs ?D) then None else heap s c)" and
      av: "avail s' = avail s"
      unfolding at1 sl1 eq1 by auto
    from False eqrp have K: "uniq_keep ?eq ?r (slice (Suc first) last' s) = ?p # ?K"
      by (simp add: sl)
    from False eqrp have D: "uniq_drop ?eq ?r (slice (Suc first) last' s) = ?D"
      by (simp add: sl)
    have lenK: "length ?K \<le> n"
      using length_uniq_keep [of ?eq ?p ?rest] Suc.prems 1 by (simp add: slice_def)
    have pD: "?p \<notin> set ?D" using pn set_uniq_drop [of ?eq ?p ?rest] by auto
    from fr rl Suc.prems have "slots s' ! Suc result =
        (if Suc first < Suc result \<and> Suc result < last' \<and> slots ?s1 ! Suc result \<in> set ?D then None
         else slots ?s1 ! Suc result)"
      by simp
    with Suc.prems at1 have at_r: "slots s' ! Suc result = ?p" by simp
    have fits: "Suc (Suc result) + length ?K \<le> length (slots s')"
      using lenK Suc.prems ln by simp
    have "slice (Suc result) (Suc result + length (?p # ?K)) s'
            = slots s' ! Suc result # slice (Suc (Suc result)) (Suc result + length (?p # ?K)) s'"
      using fits by (intro slice_Cons) simp_all
    with at_r pre have pre': "slice (Suc result) (Suc result + length (?p # ?K)) s' = ?p # ?K"
      by simp
    have fr': "\<forall>j < length (slots s).
           \<not> (result < j \<and> j < Suc result + length (?p # ?K)) \<longrightarrow>
           slots s' ! j = (if first < j \<and> j < last' \<and> slots s ! j \<in> set ?D then None
                           else slots s ! j)"
    proof (intro allI impI)
      fix j assume j: "j < length (slots s)"
        and out: "\<not> (result < j \<and> j < Suc result + length (?p # ?K))"
      from out have o1: "\<not> (Suc result < j \<and> j < Suc (Suc result) + length ?K)"
        and jr: "j \<noteq> Suc result" by auto
      from jr have same: "slots ?s1 ! j = slots s ! j" by simp
      from fr j o1 have e: "slots s' ! j =
          (if Suc first < j \<and> j < last' \<and> slots ?s1 ! j \<in> set ?D then None else slots ?s1 ! j)"
        by blast
      have cond: "(Suc first < j \<and> j < last' \<and> slots s ! j \<in> set ?D)
                  = (first < j \<and> j < last' \<and> slots s ! j \<in> set ?D)"
      proof (cases "j = Suc first")
        case True
        with pD show ?thesis by simp
      next
        case False
        then show ?thesis by auto
      qed
      from e show "slots s' ! j = (if first < j \<and> j < last' \<and> slots s ! j \<in> set ?D then None
                           else slots s ! j)"
        unfolding same cond .
    qed
    from r bd ne have "Unique_pred_loop first last' result pred s
          = Inr (Suc result + length (?p # ?K), s')"
      by (simp add: Unique_pred_loop.simps [of first])
    with ln pre' fr' fd hp av show ?thesis unfolding K D by simp
  next
    case True
    let ?s1 = "s\<lparr>slots := (slots s)[Suc first := None], heap := (heap s)(b := None),
                    freed := freed s @ [b]\<rparr>"
    let ?K = "uniq_keep ?eq ?r ?rest"
    let ?D = "uniq_drop ?eq ?r ?rest"
    from True a b x y have bd: "Unique_pred_body (Suc first) result pred s = Inr (result, ?s1)"
      using fl rl by (simp add: Unique_pred_body_drop)
    have sl1: "slice (Suc (Suc first)) last' ?s1 = ?rest"
      by (simp add: slice_update_before [of _ s "Suc first" None])
    have at1: "slots ?s1 ! result = ?r" using Suc.prems by simp
    have pt1: "pointee ?s1 q = pointee s q" if "q \<noteq> ?p" for q
    proof (cases q)
      case None
      then show ?thesis by (simp add: pointee_def)
    next
      case (Some c)
      with that b have "c \<noteq> b" by auto
      with Some show ?thesis by (simp add: pointee_def)
    qed
    have ptr: "pointee ?s1 q = pointee s q" if "q \<in> insert ?r (set ?rest)" for q
      using that rp pn by (intro pt1) auto
    have K1: "uniq_keep (same ?s1 pred) ?r ?rest = ?K"
      by (rule uniq_keep_cong, rule same_cong) (auto intro: ptr)
    have D1: "uniq_drop (same ?s1 pred) ?r ?rest = ?D"
      by (rule uniq_drop_cong, rule same_cong) (auto intro: ptr)
    have 2: "last' \<le> length (slots ?s1)" using Suc.prems by simp
    have 3: "result \<le> Suc first" using Suc.prems by simp
    have 4: "live ?s1 (slots ?s1 ! result)"
      unfolding at1 using Suc.prems(4) ptr [of ?r] by (simp add: live_def)
    have 5: "slots ?s1 ! result \<notin> set (slice (Suc (Suc first)) last' ?s1)"
      unfolding at1 sl1 by (rule rn)
    have 6: "list_all (live ?s1) (slice (Suc (Suc first)) last' ?s1)"
      unfolding sl1 using lv ptr by (simp add: list_all_iff live_def)
    have 7: "distinct (slice (Suc (Suc first)) last' ?s1)" unfolding sl1 by (rule dr)
    from Suc.IH [OF 1 2 3 4 5 6 7] obtain s' where
      r: "Unique_pred_loop (Suc first) last' result pred ?s1 = Inr (Suc result + length ?K, s')" and
      ln: "length (slots s') = length (slots s)" and
      pre: "slice (Suc result) (Suc result + length ?K) s' = ?K" and
      fr: "\<forall>j < length (slots s).
             \<not> (result < j \<and> j < Suc result + length ?K) \<longrightarrow>
             slots s' ! j = (if Suc first < j \<and> j < last' \<and> slots ?s1 ! j \<in> set ?D then None
                             else slots ?s1 ! j)" and
      fd: "freed s' = freed ?s1 @ addrs ?D" and
      hp: "\<forall>c. heap s' c = (if c \<in> set (addrs ?D) then None else heap ?s1 c)" and
      av: "avail s' = avail s"
      unfolding at1 sl1 K1 D1 by auto
    from True eqrp have K: "uniq_keep ?eq ?r (slice (Suc first) last' s) = ?K"
      by (simp add: sl)
    from True eqrp have D: "uniq_drop ?eq ?r (slice (Suc first) last' s) = ?p # ?D"
      by (simp add: sl)
    have fr': "\<forall>j < length (slots s).
           \<not> (result < j \<and> j < Suc result + length ?K) \<longrightarrow>
           slots s' ! j = (if first < j \<and> j < last' \<and> slots s ! j \<in> set (?p # ?D) then None
                           else slots s ! j)"
    proof (intro allI impI)
      fix j assume j: "j < length (slots s)"
        and out: "\<not> (result < j \<and> j < Suc result + length ?K)"
      from fr j out have e: "slots s' ! j =
          (if Suc first < j \<and> j < last' \<and> slots ?s1 ! j \<in> set ?D then None else slots ?s1 ! j)"
        by blast
      show "slots s' ! j = (if first < j \<and> j < last' \<and> slots s ! j \<in> set (?p # ?D) then None
                           else slots s ! j)"
      proof (cases "j = Suc first")
        case True
        with e fl lt show ?thesis by simp
      next
        case False
        then have same: "slots ?s1 ! j = slots s ! j" by simp
        have cond: "(Suc first < j \<and> j < last' \<and> slots s ! j \<in> set ?D)
                    = (first < j \<and> j < last' \<and> slots s ! j \<in> set (?p # ?D))"
        proof (cases "Suc first < j \<and> j < last'")
          case True
          then have "slots s ! j \<in> set ?rest"
            using Suc.prems by (intro slice_mem) simp_all
          with pn have "slots s ! j \<noteq> ?p" by auto
          with True show ?thesis by auto
        next
          case F2: False
          with False show ?thesis by auto
        qed
        from e show ?thesis unfolding same cond .
      qed
    qed
    have fd': "freed s' = freed s @ addrs (?p # ?D)" using fd b by simp
    have hp': "\<forall>c. heap s' c = (if c \<in> set (addrs (?p # ?D)) then None else heap s c)"
      using hp b by auto
    from r bd ne have "Unique_pred_loop first last' result pred s
          = Inr (Suc result + length ?K, s')"
      by (simp add: Unique_pred_loop.simps [of first])
    with ln pre fr' fd' hp' av show ?thesis unfolding K D by simp
  qed
qed


lemma representatives_Nil: "slice first last' s = [] \<Longrightarrow> representatives first last' pred s = []"
  by (simp add: representatives_def)

lemma duplicates_Nil: "slice first last' s = [] \<Longrightarrow> duplicates first last' pred s = []"
  by (simp add: duplicates_def)

lemma Unique_pred_ok:
  assumes "owned first last' s"
  shows "\<exists>s'. Unique_pred first last' pred s
          = Inr (first + length (representatives first last' pred s), s') \<and>
        length (slots s') = length (slots s) \<and>
        slice first (first + length (representatives first last' pred s)) s'
          = representatives first last' pred s \<and>
        (\<forall>j < length (slots s).
           \<not> (first \<le> j \<and> j < first + length (representatives first last' pred s)) \<longrightarrow>
           slots s' ! j =
             (if first \<le> j \<and> j < last' \<and> slots s ! j \<in> set (duplicates first last' pred s)
              then None else slots s ! j)) \<and>
        freed s' = freed s @ addrs (duplicates first last' pred s) \<and>
        (\<forall>a. heap s' a = (if a \<in> set (addrs (duplicates first last' pred s)) then None
                           else heap s a)) \<and>
        avail s' = avail s"
proof (cases "first = last'")
  case True
  then show ?thesis
    by (simp add: Unique_pred_def representatives_Nil duplicates_Nil)
next
  case False
  let ?p = "slots s ! first"
  let ?ps = "slice (Suc first) last' s"
  let ?K = "uniq_keep (same s pred) ?p ?ps"
  let ?D = "uniq_drop (same s pred) ?p ?ps"
  from assms False have lt: "first < last'" and ll: "last' \<le> length (slots s)"
    by (simp_all add: owned_def)
  then have sl: "slice first last' s = ?p # ?ps" by (simp add: slice_Cons)
  with assms have lp: "live s ?p" and pn: "?p \<notin> set ?ps"
    and lv: "list_all (live s) ?ps" and d: "distinct ?ps"
    by (simp_all add: owned_def)
  have reps: "representatives first last' pred s = ?p # ?K" by (simp add: representatives_def sl)
  have dups: "duplicates first last' pred s = ?D" by (simp add: duplicates_def sl)
  from lt have n: "last' = Suc first + (last' - Suc first)" by simp
  from Unique_pred_loop_ok [OF n ll le_refl lp pn lv d, of pred] obtain s' where
    r: "Unique_pred_loop first last' first pred s = Inr (Suc first + length ?K, s')" and
    ln: "length (slots s') = length (slots s)" and
    pre: "slice (Suc first) (Suc first + length ?K) s' = ?K" and
    fr: "\<forall>j < length (slots s).
           \<not> (first < j \<and> j < Suc first + length ?K) \<longrightarrow>
           slots s' ! j = (if first < j \<and> j < last' \<and> slots s ! j \<in> set ?D then None
                           else slots s ! j)" and
    fd: "freed s' = freed s @ addrs ?D" and
    hp: "\<forall>a. heap s' a = (if a \<in> set (addrs ?D) then None else heap s a)" and
    av: "avail s' = avail s"
    by (elim exE conjE)
  from lt ll have fl: "first < length (slots s)" by simp
  with fr have at: "slots s' ! first = ?p" by simp
  have lenK: "length ?K \<le> last' - Suc first"
    using length_uniq_keep [of "same s pred" ?p ?ps] ll by (simp add: slice_def)
  with lt ll ln have fits: "Suc first + length ?K \<le> length (slots s')" by simp
  have "slice first (first + length (?p # ?K)) s'
          = slots s' ! first # slice (Suc first) (first + length (?p # ?K)) s'"
    using fits by (intro slice_Cons) simp_all
  with at pre have pre': "slice first (first + length (?p # ?K)) s' = ?p # ?K" by simp
  have fr': "\<forall>j < length (slots s).
           \<not> (first \<le> j \<and> j < first + length (?p # ?K)) \<longrightarrow>
           slots s' ! j = (if first \<le> j \<and> j < last' \<and> slots s ! j \<in> set ?D then None
                           else slots s ! j)"
  proof (intro allI impI)
    fix j assume j: "j < length (slots s)"
      and out: "\<not> (first \<le> j \<and> j < first + length (?p # ?K))"
    from out have o1: "\<not> (first < j \<and> j < Suc first + length ?K)" and jf: "j \<noteq> first" by auto
    from fr j o1 have e: "slots s' ! j =
        (if first < j \<and> j < last' \<and> slots s ! j \<in> set ?D then None else slots s ! j)"
      by blast
    from jf have cond: "(first < j \<and> j < last' \<and> slots s ! j \<in> set ?D)
                      = (first \<le> j \<and> j < last' \<and> slots s ! j \<in> set ?D)" by auto
    from e show "slots s' ! j = (if first \<le> j \<and> j < last' \<and> slots s ! j \<in> set ?D then None
                           else slots s ! j)"
      unfolding cond .
  qed
  from r False have "Unique_pred first last' pred s = Inr (first + length (?p # ?K), s')"
    by (simp add: Unique_pred_def)
  with ln pre' fr' fd hp av show ?thesis unfolding reps dups by simp
qed

lemma Unique_body_eq: "Unique_body first result = Unique_pred_body first result (=)"
  by (simp add: Unique_body_def Unique_pred_body_def)

lemma Unique_loop_eq: "Unique_loop first last' result s = Unique_pred_loop first last' result (=) s"
proof (induction first last' result s rule: Unique_loop.induct)
  case (1 first last' result s)
  show ?case
  proof (cases "Suc first = last'")
    case True
    then show ?thesis by (simp add: Unique_loop.simps Unique_pred_loop.simps)
  next
    case False
    show ?thesis
    proof (cases "Unique_body (Suc first) result s")
      case (Inl x)
      with False show ?thesis
        by (simp add: Unique_loop.simps [of first] Unique_pred_loop.simps [of first]
                      Unique_body_eq [symmetric])
    next
      case (Inr rs)
      obtain r s1 where rs: "rs = (r, s1)" by (cases rs)
      from "1.IH" [OF False Inr rs [symmetric]] False Inr rs show ?thesis
        by (simp add: Unique_loop.simps [of first] Unique_pred_loop.simps [of first]
                      Unique_body_eq [symmetric])
    qed
  qed
qed

lemma Unique_eq: "Unique first last' s = Unique_pred first last' (=) s"
  by (simp add: Unique_def Unique_pred_def Unique_loop_eq)

lemma same_eq_live: "live s r \<Longrightarrow> same s (=) r p = (pointee s p = pointee s r)"
  by (auto simp: same_def sat_def live_def split: option.splits)

lemma uniq_keep_remdups_adj:
  "live s r \<Longrightarrow> list_all (live s) ps \<Longrightarrow>
   map (pointee s) (r # uniq_keep (same s (=)) r ps) = remdups_adj (map (pointee s) (r # ps))"
proof (induction ps arbitrary: r)
  case Nil
  then show ?case by simp
next
  case (Cons p ps)
  from Cons.prems have lp: "live s p" and lps: "list_all (live s) ps" by simp_all
  show ?case
  proof (cases "pointee s p = pointee s r")
    case True
    with Cons.IH [OF Cons.prems(1) lps] Cons.prems show ?thesis by (simp add: same_eq_live)
  next
    case False
    with Cons.IH [OF lp lps] Cons.prems show ?thesis by (simp add: same_eq_live)
  qed
qed

lemma map_pointee_live:
  "list_all (live s) ps \<Longrightarrow> map (pointee s) ps = map Some (List.map_filter (pointee s) ps)"
  by (induction ps) (auto simp: map_filter_simps live_def)

lemma subseq_uniq_keep: "subseq (uniq_keep eq r ps) ps"
  by (induction ps arbitrary: r) auto

lemma uniq_partition:
  "set (uniq_keep eq r ps) \<union> set (uniq_drop eq r ps) = set ps"
  by (induction ps arbitrary: r) auto

lemma uniq_disjoint:
  "distinct ps \<Longrightarrow> set (uniq_keep eq r ps) \<inter> set (uniq_drop eq r ps) = {}"
proof (induction ps arbitrary: r)
  case Nil
  then show ?case by simp
next
  case (Cons p ps)
  then show ?case
    using set_uniq_keep [of eq r ps] set_uniq_drop [of eq p ps] by auto
qed

lemma distinct_uniq_drop: "distinct ps \<Longrightarrow> distinct (uniq_drop eq r ps)"
proof (induction ps arbitrary: r)
  case Nil
  then show ?case by simp
next
  case (Cons p ps)
  then show ?case using set_uniq_drop [of eq r ps] by auto
qed

lemma sorted_distinct_remdups_adj: "sorted (xs :: 'a::linorder list) \<Longrightarrow> distinct (remdups_adj xs)"
proof (induction xs rule: remdups_adj.induct)
  case 1
  then show ?case by simp
next
  case (2 x)
  then show ?case by simp
next
  case (3 x y xs)
  then show ?case by (auto simp: order.strict_iff_order)
qed

lemma Unique_body_collapses:
  "Unique_body i result s0 = Inr (r1, s1) \<Longrightarrow> slots s0 ! result = Some a \<Longrightarrow>
   slots s0 ! i = Some b \<Longrightarrow> heap s0 a = Some x \<Longrightarrow> heap s0 b = Some x \<Longrightarrow>
   r1 = result \<and> slots s1 ! i = None \<and> heap s1 b = None \<and> freed s1 = freed s0 @ [b]"
  by (auto simp: Unique_body_def bnd_def ret_def read_slot_def deref_def write_slot_def
                 delete_ptr_def split: if_splits)


text \<open>
  C4. \<^verbatim>\<open>Unique(first, last)\<close> over an owned range whose values are sorted returns the
  iterator \<open>r\<close>, and so does the overload that is given equality as its predicate.
  The pointees of the slots \<open>[first, r)\<close> are the values of the range with every run
  of equal values collapsed to one: no two adjacent ones are equal, no value occurs
  twice, every value of the range occurs; the pointers of the prefix are a
  subsequence of the range's pointers, so the order is the original one. Every pointer
  of the range is either in the prefix or a collapsed duplicate, never both; the
  duplicates are deleted once each, in order, their objects are dead and every other
  object is as before; a duplicate's slot at or after \<open>r\<close> holds the null pointer. The
  empty range returns \<^verbatim>\<open>last\<close>. In every iteration that collapses (the element at \<open>i\<close>
  equals the one last kept) the pointer is deleted and slot \<open>i\<close> holds the null pointer
  when the body ends. The witness is the example with the values 1, 9, 9.
\<close>

theorem Unique_sorted_range:
  fixes s :: "('v::linorder) mem"
  assumes "owned first last' s" and "sorted (vals first last' s)"
  shows "(\<exists>r s'. Unique first last' s = Inr (r, s') \<and>
            Unique_pred first last' (=) s = Inr (r, s') \<and>
            r = first + length (remdups_adj (vals first last' s)) \<and> r \<le> last' \<and>
            map (pointee s') (slice first r s') = map Some (remdups_adj (vals first last' s)) \<and>
            distinct_adj (remdups_adj (vals first last' s)) \<and>
            distinct (remdups_adj (vals first last' s)) \<and>
            set (remdups_adj (vals first last' s)) = set (vals first last' s) \<and>
            subseq (slice first r s') (slice first last' s) \<and>
            set (slice first r s') \<union> set (duplicates first last' (=) s)
              = set (slice first last' s) \<and>
            set (slice first r s') \<inter> set (duplicates first last' (=) s) = {} \<and>
            freed s' = freed s @ addrs (duplicates first last' (=) s) \<and>
            distinct (addrs (duplicates first last' (=) s)) \<and>
            (\<forall>a. heap s' a = (if Some a \<in> set (duplicates first last' (=) s) then None
                               else heap s a)) \<and>
            (\<forall>j. r \<le> j \<and> j < last' \<and> slots s ! j \<in> set (duplicates first last' (=) s)
                  \<longrightarrow> slots s' ! j = None)) \<and>
         Unique last' last' s = Inr (last', s) \<and>
         (\<forall>i result s0 r1 s1 a b x.
            Unique_body i result (s0 :: 'v mem) = Inr (r1, s1) \<longrightarrow>
            slots s0 ! result = Some a \<longrightarrow> slots s0 ! i = Some b \<longrightarrow>
            heap s0 a = Some x \<longrightarrow> heap s0 b = Some x \<longrightarrow>
            r1 = result \<and> slots s1 ! i = None \<and> heap s1 b = None \<and> freed s1 = freed s0 @ [b])"
proof -
  let ?src = "slice first last' s"
  let ?K = "representatives first last' (=) s"
  let ?D = "duplicates first last' (=) s"
  let ?V = "vals first last' s"
  from assms(1) have fl: "first \<le> last'" and ll: "last' \<le> length (slots s)"
    and lv: "list_all (live s) ?src" and d: "distinct ?src"
    by (simp_all add: owned_def)
  from Unique_pred_ok [OF assms(1), of "(=)"] obtain s' where
    r: "Unique_pred first last' (=) s = Inr (first + length ?K, s')" and
    ln: "length (slots s') = length (slots s)" and
    pre: "slice first (first + length ?K) s' = ?K" and
    fr: "\<forall>j < length (slots s).
           \<not> (first \<le> j \<and> j < first + length ?K) \<longrightarrow>
           slots s' ! j = (if first \<le> j \<and> j < last' \<and> slots s ! j \<in> set ?D then None
                           else slots s ! j)" and
    fd: "freed s' = freed s @ addrs ?D" and
    hp: "\<forall>a. heap s' a = (if a \<in> set (addrs ?D) then None else heap s a)"
    by (elim exE conjE)
  have srcV: "map (pointee s) ?src = map Some ?V"
    unfolding vals_def using lv by (rule map_pointee_live)
  have KV: "map (pointee s) ?K = map Some (remdups_adj ?V)"
  proof (cases ?src)
    case Nil
    then have "?V = []" by (simp add: vals_def map_filter_simps)
    with Nil show ?thesis by (simp add: representatives_def)
  next
    case (Cons p ps)
    with lv have "live s p" "list_all (live s) ps" by simp_all
    from uniq_keep_remdups_adj [OF this] Cons
    have "map (pointee s) ?K = remdups_adj (map (pointee s) ?src)"
      by (simp add: representatives_def)
    also have "\<dots> = map Some (remdups_adj ?V)"
      unfolding srcV by (rule remdups_adj_map_injective) simp
    finally show ?thesis .
  qed
  have part: "set ?K \<union> set ?D = set ?src" and disj: "set ?K \<inter> set ?D = {}"
    and sub: "subseq ?K ?src" and dD: "distinct ?D"
  proof -
    show "set ?K \<union> set ?D = set ?src"
      using uniq_partition [of "same s (=)"]
      by (cases ?src) (auto simp: representatives_def duplicates_def)
    show "set ?K \<inter> set ?D = {}"
    proof (cases ?src)
      case Nil
      then show ?thesis by (simp add: representatives_def)
    next
      case (Cons p ps)
      with d have "p \<notin> set ps" "distinct ps" by simp_all
      with uniq_disjoint [of ps "same s (=)" p] set_uniq_drop [of "same s (=)" p ps] Cons
      show ?thesis by (auto simp: representatives_def duplicates_def)
    qed
    show "subseq ?K ?src"
      using subseq_uniq_keep [of "same s (=)"]
      by (cases ?src) (auto simp: representatives_def)
    show "distinct ?D"
      using d by (cases ?src) (auto simp: duplicates_def distinct_uniq_drop)
  qed
  have hp': "\<forall>a. heap s' a = (if Some a \<in> set ?D then None else heap s a)"
    using hp by (simp add: set_addrs)
  have "pointee s' p = pointee s p" if "p \<in> set ?K" for p
  proof (cases p)
    case None
    then show ?thesis by (simp add: pointee_def)
  next
    case (Some a)
    with that disj have "Some a \<notin> set ?D" by auto
    with hp' Some show ?thesis by simp
  qed
  then have "map (pointee s') ?K = map (pointee s) ?K" by simp
  with KV have KV': "map (pointee s') ?K = map Some (remdups_adj ?V)" by simp
  have "length (map (pointee s) ?K) = length (map Some (remdups_adj ?V))"
    by (simp only: KV)
  then have lenK: "length ?K = length (remdups_adj ?V)" by simp
  have "length ?K \<le> length ?src" using sub by (rule list_emb_length)
  with fl ll have le: "first + length ?K \<le> last'" by (simp add: slice_def)
  have tail: "\<forall>j. first + length ?K \<le> j \<and> j < last' \<and> slots s ! j \<in> set ?D
                \<longrightarrow> slots s' ! j = None"
  proof (intro allI impI)
    fix j assume j: "first + length ?K \<le> j \<and> j < last' \<and> slots s ! j \<in> set ?D"
    with ll have "j < length (slots s)" "\<not> (first \<le> j \<and> j < first + length ?K)" by simp_all
    with fr have "slots s' ! j =
        (if first \<le> j \<and> j < last' \<and> slots s ! j \<in> set ?D then None else slots s ! j)"
      by blast
    with j show "slots s' ! j = None" by simp
  qed
  have A: "\<exists>r s'. Unique first last' s = Inr (r, s') \<and>
            Unique_pred first last' (=) s = Inr (r, s') \<and>
            r = first + length (remdups_adj ?V) \<and> r \<le> last' \<and>
            map (pointee s') (slice first r s') = map Some (remdups_adj ?V) \<and>
            distinct_adj (remdups_adj ?V) \<and>
            distinct (remdups_adj ?V) \<and>
            set (remdups_adj ?V) = set ?V \<and>
            subseq (slice first r s') ?src \<and>
            set (slice first r s') \<union> set ?D = set ?src \<and>
            set (slice first r s') \<inter> set ?D = {} \<and>
            freed s' = freed s @ addrs ?D \<and>
            distinct (addrs ?D) \<and>
            (\<forall>a. heap s' a = (if Some a \<in> set ?D then None else heap s a)) \<and>
            (\<forall>j. r \<le> j \<and> j < last' \<and> slots s ! j \<in> set ?D \<longrightarrow> slots s' ! j = None)"
  proof (intro exI conjI)
    show "Unique first last' s = Inr (first + length ?K, s')" unfolding Unique_eq by (rule r)
    show "Unique_pred first last' (=) s = Inr (first + length ?K, s')" by (rule r)
    show "first + length ?K = first + length (remdups_adj ?V)" by (simp only: lenK)
    show "first + length ?K \<le> last'" by (rule le)
    show "map (pointee s') (slice first (first + length ?K) s') = map Some (remdups_adj ?V)"
      unfolding pre by (rule KV')
    show "distinct_adj (remdups_adj ?V)" by simp
    show "distinct (remdups_adj ?V)" using assms(2) by (rule sorted_distinct_remdups_adj)
    show "set (remdups_adj ?V) = set ?V" by simp
    show "subseq (slice first (first + length ?K) s') ?src" unfolding pre by (rule sub)
    show "set (slice first (first + length ?K) s') \<union> set ?D = set ?src"
      unfolding pre by (rule part)
    show "set (slice first (first + length ?K) s') \<inter> set ?D = {}"
      unfolding pre by (rule disj)
    show "freed s' = freed s @ addrs ?D" by (rule fd)
    show "distinct (addrs ?D)" using dD by (rule distinct_addrs)
    show "\<forall>a. heap s' a = (if Some a \<in> set ?D then None else heap s a)" by (rule hp')
    show "\<forall>j. first + length ?K \<le> j \<and> j < last' \<and> slots s ! j \<in> set ?D
            \<longrightarrow> slots s' ! j = None" by (rule tail)
  qed
  have B: "Unique last' last' s = Inr (last', s)" by (simp add: Unique_def)
  have C: "\<forall>i result s0 r1 s1 a b x.
            Unique_body i result (s0 :: 'v mem) = Inr (r1, s1) \<longrightarrow>
            slots s0 ! result = Some a \<longrightarrow> slots s0 ! i = Some b \<longrightarrow>
            heap s0 a = Some x \<longrightarrow> heap s0 b = Some x \<longrightarrow>
            r1 = result \<and> slots s1 ! i = None \<and> heap s1 b = None \<and> freed s1 = freed s0 @ [b]"
    by (intro allI impI) (rule Unique_body_collapses)
  from A B C show ?thesis by (intro conjI)
qed


theorem Unique_witness:
  "owned 0 3 example_unique \<and> sorted (vals 0 3 example_unique) \<and>
   vals 0 3 example_unique = [1, 9, 9] \<and>
   (\<exists>s'. Unique 0 3 example_unique = Inr (2, s') \<and>
      map (pointee s') (slice 0 2 s') = [Some 1, Some 9] \<and>
      freed s' = [3] \<and> heap s' 3 = None \<and> slots s' ! 2 = None)"
proof -
  have h: "owned 0 3 example_unique"
    by (simp add: owned_def example_unique_def slice_def live_def)
  have V: "vals 0 3 example_unique = [1, 9, 9]"
    by (simp add: vals_def example_unique_def slice_def map_filter_simps)
  have D: "duplicates 0 3 (=) example_unique = [Some 3]"
    by (simp add: duplicates_def example_unique_def slice_def same_def sat_def)
  have so: "sorted (vals 0 3 example_unique)" unfolding V by simp
  have F: "freed example_unique = []" and S: "slots example_unique ! 2 = Some 3"
    by (simp_all add: example_unique_def)
  from Unique_sorted_range [OF h so, THEN conjunct1] obtain r s' where
    r: "Unique 0 3 example_unique = Inr (r, s')" and
    r2: "r = 0 + length (remdups_adj [1, 9, 9 :: int])" and
    p: "map (pointee s') (slice 0 r s') = map Some (remdups_adj [1, 9, 9])" and
    f: "freed s' = freed example_unique @ addrs [Some 3]" and
    hp: "\<forall>a. heap s' a = (if Some a \<in> set [Some 3] then None else heap example_unique a)" and
    tl: "\<forall>j. r \<le> j \<and> j < 3 \<and> slots example_unique ! j \<in> set [Some 3] \<longrightarrow> slots s' ! j = None"
    unfolding V D by (elim exE conjE)
  from r2 have r2': "r = 2" by simp
  from hp have h3: "heap s' 3 = None" by simp
  from f F have f': "freed s' = [3]" by simp
  from tl r2' S have t2: "slots s' ! 2 = None" by simp
  from p have p': "map (pointee s') (slice 0 r s') = [Some 1, Some 9]" by simp
  show ?thesis
  proof (intro conjI exI)
    show "owned 0 3 example_unique" by (rule h)
    show "sorted (vals 0 3 example_unique)" by (rule so)
    show "vals 0 3 example_unique = [1, 9, 9]" by (rule V)
    show "Unique 0 3 example_unique = Inr (2, s')" using r unfolding r2' .
    show "map (pointee s') (slice 0 2 s') = [Some 1, Some 9]" using p' unfolding r2' .
    show "freed s' = [3]" by (rule f')
    show "heap s' 3 = None" by (rule h3)
    show "slots s' ! 2 = None" by (rule t2)
  qed
qed

section \<open>The tail left by a compaction\<close>

lemma slice_set_nth:
  "p \<in> set (slice first last' s) \<Longrightarrow> last' \<le> length (slots s) \<Longrightarrow>
   \<exists>j. first \<le> j \<and> j < last' \<and> slots s ! j = p"
proof -
  assume p: "p \<in> set (slice first last' s)" and ll: "last' \<le> length (slots s)"
  then obtain i where i: "i < length (slice first last' s)" "slice first last' s ! i = p"
    by (auto simp: in_set_conv_nth)
  with ll have "i < last' - first" by (simp add: length_slice)
  with i ll have "first \<le> first + i \<and> first + i < last' \<and> slots s ! (first + i) = p"
    using slice_nth [of first "first + i" last' s] by simp
  then show ?thesis by blast
qed

lemma tail_okI:
  "last' \<le> length (slots s') \<Longrightarrow>
   (\<And>j. r \<le> j \<Longrightarrow> j < last' \<Longrightarrow> slots s' ! j = None \<or> slots s' ! j \<in> set (slice first r s')) \<Longrightarrow>
   tail_ok first r last' s'"
proof -
  assume ll: "last' \<le> length (slots s')"
    and h: "\<And>j. r \<le> j \<Longrightarrow> j < last' \<Longrightarrow>
              slots s' ! j = None \<or> slots s' ! j \<in> set (slice first r s')"
  have "p = None \<or> p \<in> set (slice first r s')" if "p \<in> set (slice r last' s')" for p
  proof -
    from slice_set_nth [OF that ll] obtain j where j: "r \<le> j" "j < last'" "slots s' ! j = p"
      by blast
    from h [OF j(1,2)] j(3) show ?thesis by simp
  qed
  then show ?thesis unfolding tail_ok_def list_all_iff by (intro ballI)
qed

lemma compaction_tail:
  fixes s s' :: "'v mem"
  assumes own: "owned first last' s"
    and ln: "length (slots s') = length (slots s)"
    and pre: "slice first (first + length K) s' = K"
    and fr: "\<forall>j < length (slots s).
           \<not> (first \<le> j \<and> j < first + length K) \<longrightarrow>
           slots s' ! j = (if first \<le> j \<and> j < last' \<and> slots s ! j \<in> set D then None
                           else slots s ! j)"
    and part: "set K \<union> set D = set (slice first last' s)"
    and disj: "set K \<inter> set D = {}"
    and hp: "\<forall>a. heap s' a = (if a \<in> set (addrs D) then None else heap s a)"
  shows "tail_ok first (first + length K) last' s' \<and>
         accounted first (first + length K) last' s s' \<and>
         list_all (live s') (slice first (first + length K) s')"
proof -
  from own have fl: "first \<le> last'" and ll: "last' \<le> length (slots s)"
    and lv: "list_all (live s) (slice first last' s)"
    by (simp_all add: owned_def)
  have t: "tail_ok first (first + length K) last' s'"
  proof (rule tail_okI)
    show "last' \<le> length (slots s')" using ll ln by simp
  next
    fix j assume j: "first + length K \<le> j" "j < last'"
    with ll have "j < length (slots s)" "\<not> (first \<le> j \<and> j < first + length K)" by simp_all
    with fr have e: "slots s' ! j =
        (if first \<le> j \<and> j < last' \<and> slots s ! j \<in> set D then None else slots s ! j)"
      by blast
    from j ll have "slots s ! j \<in> set (slice first last' s)" by (intro slice_mem) simp_all
    with part have "slots s ! j \<in> set K \<or> slots s ! j \<in> set D" by blast
    with e j show "slots s' ! j = None \<or> slots s' ! j \<in> set (slice first (first + length K) s')"
      unfolding pre by auto
  qed
  have dead: "pointee s' p = None" if "p \<in> set D" for p
  proof (cases p)
    case None
    then show ?thesis by (simp add: pointee_def)
  next
    case (Some a)
    with that have "a \<in> set (addrs D)" by (simp add: set_addrs)
    with hp Some show ?thesis by simp
  qed
  have "p \<in> set K \<or> pointee s' p = None" if "p \<in> set (slice first last' s)" for p
  proof -
    from that part have "p \<in> set K \<or> p \<in> set D" by auto
    with dead show ?thesis by auto
  qed
  then have a: "accounted first (first + length K) last' s s'"
    unfolding accounted_def pre list_all_iff by (intro ballI)
  have "live s' p" if "p \<in> set K" for p
  proof -
    from that part lv have l: "live s p" by (auto simp: list_all_iff)
    then obtain b x where b: "p = Some b" "heap s b = Some x" by (auto dest: live_Some)
    from that disj b have "b \<notin> set (addrs D)" by (auto simp: set_addrs)
    with hp b show ?thesis by (simp add: live_def)
  qed
  then have l: "list_all (live s') (slice first (first + length K) s')"
    unfolding pre by (simp add: list_all_iff)
  from t a l show ?thesis by (intro conjI)
qed

lemma RemoveIf_tail:
  fixes s :: "'v mem"
  assumes "owned first last' s"
  shows "\<exists>r s'. RemoveIf first last' v pred s = Inr (r, s') \<and> r \<le> last' \<and>
           tail_ok first r last' s' \<and> accounted first r last' s s' \<and>
           list_all (live s') (slice first r s')"
proof -
  let ?K = "survivors first last' pred s"
  let ?D = "removed first last' pred s"
  from RemoveIf_ok [OF assms, of v pred] obtain s' where
    r: "RemoveIf first last' v pred s = Inr (first + length ?K, s')" and
    ln: "length (slots s') = length (slots s)" and
    pre: "slice first (first + length ?K) s' = ?K" and
    fr: "\<forall>j < length (slots s).
           \<not> (first \<le> j \<and> j < first + length ?K) \<longrightarrow>
           slots s' ! j = (if first \<le> j \<and> j < last' \<and> sat s pred (slots s ! j) then None
                           else slots s ! j)" and
    hp: "\<forall>a. heap s' a = (if a \<in> set (addrs ?D) then None else heap s a)"
    by (elim exE conjE)
  from assms have fl: "first \<le> last'" and ll: "last' \<le> length (slots s)"
    by (simp_all add: owned_def)
  have fr': "\<forall>j < length (slots s).
           \<not> (first \<le> j \<and> j < first + length ?K) \<longrightarrow>
           slots s' ! j = (if first \<le> j \<and> j < last' \<and> slots s ! j \<in> set ?D then None
                           else slots s ! j)"
  proof (intro allI impI)
    fix j assume j: "j < length (slots s)" and out: "\<not> (first \<le> j \<and> j < first + length ?K)"
    from fr j out have e: "slots s' ! j =
        (if first \<le> j \<and> j < last' \<and> sat s pred (slots s ! j) then None else slots s ! j)"
      by blast
    have cond: "(first \<le> j \<and> j < last' \<and> sat s pred (slots s ! j))
              = (first \<le> j \<and> j < last' \<and> slots s ! j \<in> set ?D)"
      using ll slice_mem [of first j last' s] by (auto simp: removed_def)
    from e show "slots s' ! j = (if first \<le> j \<and> j < last' \<and> slots s ! j \<in> set ?D then None
                           else slots s ! j)"
      unfolding cond .
  qed
  have part: "set ?K \<union> set ?D = set (slice first last' s)"
    by (auto simp: survivors_def removed_def)
  have disj: "set ?K \<inter> set ?D = {}" by (auto simp: survivors_def removed_def)
  have le: "first + length ?K \<le> last'"
    using length_survivors [OF ll, of first pred] fl by linarith
  from compaction_tail [OF assms ln pre fr' part disj hp] r le show ?thesis by blast
qed

lemma Unique_pred_tail:
  fixes s :: "'v mem"
  assumes "owned first last' s"
  shows "\<exists>r s'. Unique_pred first last' pred s = Inr (r, s') \<and> r \<le> last' \<and>
           tail_ok first r last' s' \<and> accounted first r last' s s' \<and>
           list_all (live s') (slice first r s')"
proof -
  let ?src = "slice first last' s"
  let ?K = "representatives first last' pred s"
  let ?D = "duplicates first last' pred s"
  from Unique_pred_ok [OF assms, of pred] obtain s' where
    r: "Unique_pred first last' pred s = Inr (first + length ?K, s')" and
    ln: "length (slots s') = length (slots s)" and
    pre: "slice first (first + length ?K) s' = ?K" and
    fr: "\<forall>j < length (slots s).
           \<not> (first \<le> j \<and> j < first + length ?K) \<longrightarrow>
           slots s' ! j = (if first \<le> j \<and> j < last' \<and> slots s ! j \<in> set ?D then None
                           else slots s ! j)" and
    hp: "\<forall>a. heap s' a = (if a \<in> set (addrs ?D) then None else heap s a)"
    by (elim exE conjE)
  from assms have fl: "first \<le> last'" and ll: "last' \<le> length (slots s)"
    and d: "distinct ?src"
    by (simp_all add: owned_def)
  have part: "set ?K \<union> set ?D = set ?src"
    using uniq_partition [of "same s pred"]
    by (cases ?src) (auto simp: representatives_def duplicates_def)
  have disj: "set ?K \<inter> set ?D = {}"
  proof (cases ?src)
    case Nil
    then show ?thesis by (simp add: representatives_def)
  next
    case (Cons p ps)
    with d have "p \<notin> set ps" "distinct ps" by simp_all
    with uniq_disjoint [of ps "same s pred" p] set_uniq_drop [of "same s pred" p ps] Cons
    show ?thesis by (auto simp: representatives_def duplicates_def)
  qed
  have "subseq ?K ?src"
    using subseq_uniq_keep [of "same s pred"]
    by (cases ?src) (auto simp: representatives_def)
  then have "length ?K \<le> length ?src" by (rule list_emb_length)
  with fl ll have le: "first + length ?K \<le> last'" by (simp add: slice_def)
  from compaction_tail [OF assms ln pre fr part disj hp] r le show ?thesis by blast
qed


text \<open>
  C10. After \<^verbatim>\<open>Remove\<close> (its \<^verbatim>\<open>value\<close> bound to an object clear of the range),
  \<^verbatim>\<open>RemoveIf\<close> or \<^verbatim>\<open>Unique\<close> (either overload) over an owned range has returned \<open>r\<close>: every slot of the tail \<open>[r, last')\<close> holds the null pointer
  or the same pointer as some slot of the prefix \<open>[first, r)\<close>; every pointer of the
  prefix is live; and every pointer the range held is in the prefix or its object is
  dead, so no object is reachable from the tail only. The tail need not be all null:
  removing the value 1 from the pointees 1, 2, 3 leaves the prefix of the pointers 2
  and 3 and a tail slot that still holds the pointer 3; deleting every slot of the old
  range then deletes that object twice.
\<close>

theorem compaction_tail_slots:
  fixes s :: "'v mem"
  assumes "owned first last' s"
  shows "(\<exists>r s'. Remove first last' (Outside v) s = Inr (r, s') \<and> r \<le> last' \<and>
            tail_ok first r last' s' \<and> accounted first r last' s s' \<and>
            list_all (live s') (slice first r s')) \<and>
         (referent s vref = Some v \<longrightarrow> clear_of vref (slice first last' s) \<longrightarrow>
          (\<exists>r s'. Remove first last' vref s = Inr (r, s') \<and> r \<le> last' \<and>
            tail_ok first r last' s' \<and> accounted first r last' s s' \<and>
            list_all (live s') (slice first r s'))) \<and>
         (\<exists>r s'. RemoveIf first last' w pred s = Inr (r, s') \<and> r \<le> last' \<and>
            tail_ok first r last' s' \<and> accounted first r last' s s' \<and>
            list_all (live s') (slice first r s')) \<and>
         (\<exists>r s'. Unique first last' s = Inr (r, s') \<and> r \<le> last' \<and>
            tail_ok first r last' s' \<and> accounted first r last' s s' \<and>
            list_all (live s') (slice first r s')) \<and>
         (\<exists>r s'. Unique_pred first last' bpred s = Inr (r, s') \<and> r \<le> last' \<and>
            tail_ok first r last' s' \<and> accounted first r last' s s' \<and>
            list_all (live s') (slice first r s')) \<and>
         (case Remove 0 3 (Outside 1) example_mem of
            Inl e \<Rightarrow> None
          | Inr (r, s') \<Rightarrow>
              Some (r, slice 0 r s', slice r 3 s', outcome (delete_all (slice 0 3 s') s')))
           = Some (2, [Some 2, Some 3], [Some 3], Inl DoubleFree)"
proof -
  from assms have fl: "first \<le> last'" "last' \<le> length (slots s)" by (simp_all add: owned_def)
  have R: "\<exists>r s'. Remove first last' u s = Inr (r, s') \<and> r \<le> last' \<and>
            tail_ok first r last' s' \<and> accounted first r last' s s' \<and>
            list_all (live s') (slice first r s')"
    if "referent s u = Some v" and "clear_of u (slice first last' s)" for u
  proof -
    from fl that have "Remove first last' u s = RemoveIf first last' () (\<lambda>x. x = v) s"
      by (rule Remove_eq)
    then show ?thesis using RemoveIf_tail [OF assms, of "()" "\<lambda>x. x = v"] by simp
  qed
  have A0: "\<exists>r s'. Remove first last' (Outside v) s = Inr (r, s') \<and> r \<le> last' \<and>
            tail_ok first r last' s' \<and> accounted first r last' s s' \<and>
            list_all (live s') (slice first r s')"
    by (rule R) (simp_all add: referent_def clear_of_def)
  have A: "referent s vref = Some v \<longrightarrow> clear_of vref (slice first last' s) \<longrightarrow>
          (\<exists>r s'. Remove first last' vref s = Inr (r, s') \<and> r \<le> last' \<and>
            tail_ok first r last' s' \<and> accounted first r last' s s' \<and>
            list_all (live s') (slice first r s'))"
    by (intro impI) (rule R)
  have B: "\<exists>r s'. RemoveIf first last' w pred s = Inr (r, s') \<and> r \<le> last' \<and>
            tail_ok first r last' s' \<and> accounted first r last' s s' \<and>
            list_all (live s') (slice first r s')"
    by (rule RemoveIf_tail [OF assms])
  have C: "\<exists>r s'. Unique first last' s = Inr (r, s') \<and> r \<le> last' \<and>
            tail_ok first r last' s' \<and> accounted first r last' s s' \<and>
            list_all (live s') (slice first r s')"
    unfolding Unique_eq by (rule Unique_pred_tail [OF assms])
  have D: "\<exists>r s'. Unique_pred first last' bpred s = Inr (r, s') \<and> r \<le> last' \<and>
            tail_ok first r last' s' \<and> accounted first r last' s s' \<and>
            list_all (live s') (slice first r s')"
    by (rule Unique_pred_tail [OF assms])
  have E: "(case Remove 0 3 (Outside 1) example_mem of
            Inl e \<Rightarrow> None
          | Inr (r, s') \<Rightarrow>
              Some (r, slice 0 r s', slice r 3 s', outcome (delete_all (slice 0 3 s') s')))
           = Some (2, [Some 2, Some 3], [Some 3], Inl DoubleFree)"
    by code_simp
  from A0 A B C D E show ?thesis by (intro conjI)
qed

theorem compaction_tail_witness:
  "owned 0 3 example_unique \<and>
   (\<exists>r s'. Unique 0 3 example_unique = Inr (r, s') \<and> r \<le> 3 \<and> tail_ok 0 r 3 s' \<and>
      accounted 0 r 3 example_unique s' \<and> list_all (live s') (slice 0 r s')) \<and>
   (\<exists>r s'. Remove 0 3 (Outside 9) example_unique = Inr (r, s') \<and> r \<le> 3 \<and> tail_ok 0 r 3 s' \<and>
      accounted 0 r 3 example_unique s' \<and> list_all (live s') (slice 0 r s')) \<and>
   owned 1 3 example_twos \<and>
   referent example_twos (Inside 1) = Some 2 \<and>
   clear_of (Inside 1) (slice 1 3 example_twos) \<and>
   (\<exists>r s'. Remove 1 3 (Inside 1) example_twos = Inr (r, s') \<and> r \<le> 3 \<and> tail_ok 1 r 3 s' \<and>
      accounted 1 r 3 example_twos s' \<and> list_all (live s') (slice 1 r s'))"
proof -
  have h: "owned 0 3 example_unique"
    by (simp add: owned_def example_unique_def slice_def live_def)
  have h': "owned 1 3 example_twos"
    by (simp add: owned_def example_twos_def slice_def live_def)
  have g: "referent example_twos (Inside 1) = Some 2"
    by (simp add: referent_def example_twos_def)
  have c: "clear_of (Inside 1) (slice 1 3 example_twos)"
    by (simp add: clear_of_def example_twos_def slice_def)
  note T = compaction_tail_slots [OF h, of 9]
  note U = compaction_tail_slots [OF h', of _ "Inside 1" 2]
  from T [THEN conjunct1]
       T [THEN conjunct2, THEN conjunct2, THEN conjunct2, THEN conjunct1]
       U [THEN conjunct2, THEN conjunct1, rule_format, OF g c] h h' g c
  show ?thesis by (intro conjI)
qed

section \<open>Copy and clone: values and identities\<close>

lemma slice_heap_upd [simp]: "slice first last' (s\<lparr>heap := h\<rparr>) = slice first last' s"
  by (simp add: slice_def)






















text \<open>
  Where the two families part: onto a shallow copy of the source, and onto the source
  range itself, \<^verbatim>\<open>Copy\<close> leaves the pointers as they are and \<^verbatim>\<open>Clone\<close> fills the
  destination with new pointers; the pointees are 1, 2 either way.
\<close>

lemma shallow_copy_and_same_range:
  "ranges_view 0 2 2 (Copy 0 2 2 example_shallow)
     = Some (4, [Some 1, Some 2], [Some 1, Some 2], [Some 1, Some 2]) \<and>
   ranges_view 0 2 2 (Clone 0 2 2 example_shallow)
     = Some (4, [Some 10, Some 11], [Some 1, Some 2], [Some 1, Some 2]) \<and>
   ranges_view 0 2 0 (Copy 0 2 0 example_shallow)
     = Some (2, [Some 1, Some 2], [Some 1, Some 2], [Some 1, Some 2]) \<and>
   ranges_view 0 2 0 (Clone 0 2 0 example_shallow)
     = Some (2, [Some 10, Some 11], [Some 1, Some 2], [Some 1, Some 2])"
  by code_simp

section \<open>The algorithms without assertions\<close>

text \<open>
  The bodies of \<^verbatim>\<open>CopyN\<close>, \<^verbatim>\<open>CopyBackward\<close>, \<^verbatim>\<open>Remove\<close>, \<^verbatim>\<open>RemoveIf\<close> and of both
  overloads of \<^verbatim>\<open>Unique\<close> contain no \<^verbatim>\<open>assert\<close>: on no input, well-formed or not, does
  one of them end at a failed assertion.
\<close>

lemma CopyN_body_no_assert: "CopyN_body first dest s \<noteq> Inl (AssertFailed, t)"
  by (auto simp: CopyN_body_def bnd_def read_slot_def deref_def assign_def
           split: option.splits)

lemma CopyN_loop_no_assert: "CopyN_loop first count dest s \<noteq> Inl (AssertFailed, t)"
proof (induction first count dest s rule: CopyN_loop.induct)
  case (1 first count dest s)
  show ?case
  proof (cases "CopyN_body first dest s")
    case (Inl x)
    with CopyN_body_no_assert [of first dest s t] show ?thesis
      by (simp add: CopyN_loop.simps [of first])
  next
    case (Inr us)
    obtain u s1 where us: "us = (u, s1)" by (cases us)
    from "1.IH" [OF Inr us [symmetric]] Inr us show ?thesis
      by (simp add: CopyN_loop.simps [of first])
  qed
qed

lemma CopyBackward_body_no_assert: "CopyBackward_body last' dest s \<noteq> Inl (AssertFailed, t)"
  by (auto simp: CopyBackward_body_def bnd_def read_slot_def deref_def assign_def
           split: option.splits)

lemma CopyBackward_no_assert: "CopyBackward first last' dest s \<noteq> Inl (AssertFailed, t)"
proof (induction first last' dest s rule: CopyBackward.induct)
  case (1 first last' dest s)
  show ?case
  proof (cases "first = last'")
    case True
    then show ?thesis by (simp add: CopyBackward.simps)
  next
    case False
    show ?thesis
    proof (cases "CopyBackward_body last' dest s")
      case (Inl x)
      with False CopyBackward_body_no_assert [of last' dest s t] show ?thesis
        by (simp add: CopyBackward.simps [of first])
    next
      case (Inr us)
      obtain u s1 where us: "us = (u, s1)" by (cases us)
      from "1.IH" [OF False Inr us [symmetric]] False Inr us show ?thesis
        by (simp add: CopyBackward.simps [of first])
    qed
  qed
qed

lemma Remove_body_no_assert: "Remove_body first result vref s \<noteq> Inl (AssertFailed, t)"
  by (auto simp: Remove_body_def bnd_def ret_def read_slot_def write_slot_def deref_def
                 delete_ptr_def read_ref_def
           split: option.splits cref.splits)

lemma Remove_loop_no_assert: "Remove_loop first last' result vref s \<noteq> Inl (AssertFailed, t)"
proof (induction first last' result vref s rule: Remove_loop.induct)
  case (1 first last' result vref s)
  show ?case
  proof (cases "first = last'")
    case True
    then show ?thesis by (simp add: Remove_loop.simps)
  next
    case False
    show ?thesis
    proof (cases "Remove_body first result vref s")
      case (Inl x)
      with False Remove_body_no_assert [of first result vref s t] show ?thesis
        by (simp add: Remove_loop.simps [of first])
    next
      case (Inr us)
      obtain u s1 where us: "us = (u, s1)" by (cases us)
      from "1.IH" [OF False Inr us [symmetric]] False Inr us show ?thesis
        by (simp add: Remove_loop.simps [of first])
    qed
  qed
qed

lemma RemoveIf_body_no_assert: "RemoveIf_body first result pred s \<noteq> Inl (AssertFailed, t)"
  by (auto simp: RemoveIf_body_def bnd_def ret_def read_slot_def write_slot_def deref_def
                 delete_ptr_def
           split: option.splits)

lemma RemoveIf_loop_no_assert: "RemoveIf_loop first last' result v pred s \<noteq> Inl (AssertFailed, t)"
proof (induction first last' result v pred s rule: RemoveIf_loop.induct)
  case (1 first last' result v pred s)
  show ?case
  proof (cases "first = last'")
    case True
    then show ?thesis by (simp add: RemoveIf_loop.simps)
  next
    case False
    show ?thesis
    proof (cases "RemoveIf_body first result pred s")
      case (Inl x)
      with False RemoveIf_body_no_assert [of first result pred s t] show ?thesis
        by (simp add: RemoveIf_loop.simps [of first])
    next
      case (Inr us)
      obtain u s1 where us: "us = (u, s1)" by (cases us)
      from "1.IH" [OF False Inr us [symmetric]] False Inr us show ?thesis
        by (simp add: RemoveIf_loop.simps [of first])
    qed
  qed
qed

lemma Unique_pred_body_no_assert: "Unique_pred_body first result pred s \<noteq> Inl (AssertFailed, t)"
  by (auto simp: Unique_pred_body_def bnd_def ret_def read_slot_def write_slot_def deref_def
                 delete_ptr_def
           split: option.splits)

lemma Unique_pred_loop_no_assert: "Unique_pred_loop first last' result pred s \<noteq> Inl (AssertFailed, t)"
proof (induction first last' result pred s rule: Unique_pred_loop.induct)
  case (1 first last' result pred s)
  show ?case
  proof (cases "Suc first = last'")
    case True
    then show ?thesis by (simp add: Unique_pred_loop.simps)
  next
    case False
    show ?thesis
    proof (cases "Unique_pred_body (Suc first) result pred s")
      case (Inl x)
      with False Unique_pred_body_no_assert [of "Suc first" result pred s t] show ?thesis
        by (simp add: Unique_pred_loop.simps [of first])
    next
      case (Inr us)
      obtain u s1 where us: "us = (u, s1)" by (cases us)
      from "1.IH" [OF False Inr us [symmetric]] False Inr us show ?thesis
        by (simp add: Unique_pred_loop.simps [of first])
    qed
  qed
qed

lemma no_assert_outcome: "(\<And>t. r \<noteq> Inl (AssertFailed, t)) \<Longrightarrow> outcome r \<noteq> Inl AssertFailed"
  by (auto simp: outcome_def split: sum.splits)

lemma unasserted_never_assert:
  "outcome (CopyN first count dest s) \<noteq> Inl AssertFailed"
  "outcome (CopyBackward first last' dest s) \<noteq> Inl AssertFailed"
  "outcome (Remove first last' vref s) \<noteq> Inl AssertFailed"
  "outcome (RemoveIf first last' w pred s) \<noteq> Inl AssertFailed"
  "outcome (Unique first last' s) \<noteq> Inl AssertFailed"
  "outcome (Unique_pred first last' eq s) \<noteq> Inl AssertFailed"
proof -
  show "outcome (CopyN first count dest s) \<noteq> Inl AssertFailed"
    by (rule no_assert_outcome) (simp add: CopyN_def CopyN_loop_no_assert)
  show "outcome (CopyBackward first last' dest s) \<noteq> Inl AssertFailed"
    by (rule no_assert_outcome) (rule CopyBackward_no_assert)
  show "outcome (Remove first last' vref s) \<noteq> Inl AssertFailed"
    by (rule no_assert_outcome) (simp add: Remove_def Remove_loop_no_assert)
  show "outcome (RemoveIf first last' w pred s) \<noteq> Inl AssertFailed"
    by (rule no_assert_outcome) (simp add: RemoveIf_def RemoveIf_loop_no_assert)
  show "outcome (Unique first last' s) \<noteq> Inl AssertFailed"
    by (rule no_assert_outcome) (simp add: Unique_eq Unique_pred_def Unique_pred_loop_no_assert)
  show "outcome (Unique_pred first last' eq s) \<noteq> Inl AssertFailed"
    by (rule no_assert_outcome) (simp add: Unique_pred_def Unique_pred_loop_no_assert)
qed

end
